theory Spec2Isabelle
  imports Complex_Main "HOL-Library.AList"
begin

section \<open>JavaScript values used by the blame engine\<close>

text \<open>
  A JavaScript number is modelled as an exact rational or \<open>NaN\<close>: \<open>parseInt\<close> yields
  \<open>NaN\<close> on text without digits, and arithmetic and comparisons propagate it as the
  language does. Rounding of doubles is not modelled. Line numbers, which come
  from \<open>parseInt\<close> of a run of digits, are integers.

  A string is a list of 8-bit code units (the Latin-1 range of JavaScript's UTF-16 units).
\<close>

datatype jsnum = NaN | Num rat

definition js_lt :: "jsnum \<Rightarrow> jsnum \<Rightarrow> bool" where
  "js_lt a b = (case (a, b) of (Num x, Num y) \<Rightarrow> x < y | _ \<Rightarrow> False)"

definition js_gt :: "jsnum \<Rightarrow> jsnum \<Rightarrow> bool" where
  "js_gt a b = js_lt b a"

definition js_ge :: "jsnum \<Rightarrow> jsnum \<Rightarrow> bool" where
  "js_ge a b = (case (a, b) of (Num x, Num y) \<Rightarrow> y \<le> x | _ \<Rightarrow> False)"

definition js_div :: "jsnum \<Rightarrow> jsnum \<Rightarrow> jsnum" where
  \<comment> \<open>a zero divisor (\<open>Infinity\<close> or \<open>NaN\<close> in JavaScript) gives \<open>NaN\<close> here; it occurs only
      in \<open>bucketRatioOf\<close> with 0 buckets, whose value goes to the colour function\<close>
  "js_div a b = (case (a, b) of (Num x, Num y) \<Rightarrow> (if y = 0 then NaN else Num (x / y)) | _ \<Rightarrow> NaN)"

definition js_sub :: "jsnum \<Rightarrow> jsnum \<Rightarrow> jsnum" where
  "js_sub a b = (case (a, b) of (Num x, Num y) \<Rightarrow> Num (x - y) | _ \<Rightarrow> NaN)"

definition isWhiteSpace :: "char \<Rightarrow> bool" where
  \<comment> \<open>white space and line terminators: TAB, LF, VT, FF, CR, SP, NBSP\<close>
  "isWhiteSpace c = (c = CHR 0x09 \<or> c = CHR 0x0A \<or> c = CHR 0x0B \<or> c = CHR 0x0C
     \<or> c = CHR 0x0D \<or> c = CHR 0x20 \<or> c = CHR 0xA0)"

definition isDigit :: "char \<Rightarrow> bool" where
  "isDigit c = (48 \<le> (of_char c :: nat) \<and> (of_char c :: nat) \<le> 57)"

definition isHexLower :: "char \<Rightarrow> bool" where
  \<comment> \<open>the class \<open>[0-9a-f]\<close>\<close>
  "isHexLower c = (isDigit c \<or> (97 \<le> (of_char c :: nat) \<and> (of_char c :: nat) \<le> 102))"

definition trim :: "string \<Rightarrow> string" where
  "trim s = rev (dropWhile isWhiteSpace (rev (dropWhile isWhiteSpace s)))"

definition startsWith :: "string \<Rightarrow> string \<Rightarrow> bool" where
  "startsWith s p = (take (length p) s = p)"

fun includes_str :: "string \<Rightarrow> string \<Rightarrow> bool" where
  "includes_str [] p = (p = [])"
| "includes_str (c # cs) p = (startsWith (c # cs) p \<or> includes_str cs p)"

definition lowerChar :: "char \<Rightarrow> char" where
  \<comment> \<open>A-Z, and the Latin-1 capitals U+00C0..U+00DE without the multiplication sign\<close>
  "lowerChar c = (let n = (of_char c :: nat) in
     if (65 \<le> n \<and> n \<le> 90) \<or> (192 \<le> n \<and> n \<le> 222 \<and> n \<noteq> 215)
     then char_of (n + 32) else c)"

definition toLowerCase :: "string \<Rightarrow> string" where
  "toLowerCase s = map lowerChar s"

fun split_on :: "char \<Rightarrow> string \<Rightarrow> string list" where
  "split_on sep [] = [[]]"
| "split_on sep (c # cs) =
     (if c = sep then [] # split_on sep cs
      else (case split_on sep cs of
              [] \<Rightarrow> [[c]]
            | l # ls \<Rightarrow> (c # l) # ls))"

definition decimalValue :: "string \<Rightarrow> int" where
  "decimalValue ds = foldl (\<lambda>acc c. 10 * acc + (int (of_char c) - 48)) 0 ds"

definition parseInt :: "string \<Rightarrow> jsnum" where
  \<comment> \<open>\<open>parseInt(s, 10)\<close>: leading white space, an optional sign, the longest run of digits\<close>
  "parseInt s =
     (let t = dropWhile isWhiteSpace s;
          neg = (t \<noteq> [] \<and> hd t = CHR ''-'');
          u = (if t \<noteq> [] \<and> (hd t = CHR ''+'' \<or> hd t = CHR ''-'') then tl t else t);
          ds = takeWhile isDigit u
      in if ds = [] then NaN
         else Num (of_int ((if neg then - 1 else 1) * decimalValue ds)))"

section \<open>Blame parser\<close>

record BlameLineInfo =
  lineNumber :: int
  commitSha :: string
  author :: string
  authorMail :: string
  authorTime :: jsnum
  authorTz :: string
  summary :: string
  isUncommitted :: bool
  filename :: string

text \<open>
  \<open>Map<number, BlameLineInfo>\<close> keeps insertion order; \<open>set\<close> on a key already present
  replaces the value in place. This is \<^const>\<open>AList.update\<close> on an association list.
\<close>

type_synonym LineMap = "(int \<times> BlameLineInfo) list"

record BlameParseResult =
  success :: bool
  lines :: LineMap
  error :: "string option"
  lineCount :: nat

definition UNCOMMITTED_SHA_PREFIX :: string where
  "UNCOMMITTED_SHA_PREFIX = ''0000000000000000000000000000000000000000''"

text \<open>
  The header pattern \<open>^([0-9a-f]{40})\s+(\d+)\s+(\d+)(?:\s+(\d+))?$\<close>. The character
  classes that follow one another are disjoint, so the greedy runs below are the only
  way the pattern can match. The result holds the groups 1 to 4.
\<close>

definition headerMatch :: "string \<Rightarrow> (string \<times> string \<times> string \<times> string option) option" where
  "headerMatch line =
     (let sha = take 40 line; r1 = drop 40 line;
          ws1 = takeWhile isWhiteSpace r1; r2 = dropWhile isWhiteSpace r1;
          d1 = takeWhile isDigit r2; r3 = dropWhile isDigit r2;
          ws2 = takeWhile isWhiteSpace r3; r4 = dropWhile isWhiteSpace r3;
          d2 = takeWhile isDigit r4; r5 = dropWhile isDigit r4;
          ws3 = takeWhile isWhiteSpace r5; r6 = dropWhile isWhiteSpace r5;
          d3 = takeWhile isDigit r6; r7 = dropWhile isDigit r6
      in if length sha = 40 \<and> list_all isHexLower sha \<and> ws1 \<noteq> [] \<and> d1 \<noteq> []
            \<and> ws2 \<noteq> [] \<and> d2 \<noteq> []
         then (if r5 = [] then Some (sha, d1, d2, None)
               else if ws3 \<noteq> [] \<and> d3 \<noteq> [] \<and> r7 = [] then Some (sha, d1, d2, Some d3)
               else None)
         else None)"

definition applyMeta :: "BlameLineInfo \<Rightarrow> string \<Rightarrow> BlameLineInfo" where
  "applyMeta info metaLine =
     (if startsWith metaLine ''author '' then info\<lparr>author := drop 7 metaLine\<rparr>
      else if startsWith metaLine ''author-mail '' then info\<lparr>authorMail := drop 12 metaLine\<rparr>
      else if startsWith metaLine ''author-time '' then info\<lparr>authorTime := parseInt (drop 12 metaLine)\<rparr>
      else if startsWith metaLine ''author-tz '' then info\<lparr>authorTz := drop 10 metaLine\<rparr>
      else if startsWith metaLine ''summary '' then info\<lparr>summary := drop 8 metaLine\<rparr>
      else if startsWith metaLine ''filename '' then info\<lparr>filename := drop 9 metaLine\<rparr>
      else info)"

text \<open>
  The inner loop: metadata lines up to and including the content line (the first line
  that starts with a tab), or to the end of the input. It returns the record and the
  lines that are left.
\<close>

fun scanMeta :: "BlameLineInfo \<Rightarrow> string list \<Rightarrow> BlameLineInfo \<times> string list" where
  "scanMeta info [] = (info, [])"
| "scanMeta info (metaLine # rest) =
     (if startsWith metaLine [CHR 0x09] then (info, rest)
      else scanMeta (applyMeta info metaLine) rest)"

definition initialInfo :: "string \<Rightarrow> int \<Rightarrow> BlameLineInfo" where
  "initialInfo sha finalLine =
     \<lparr>lineNumber = finalLine, commitSha = sha, author = [], authorMail = [],
      authorTime = Num 0, authorTz = [], summary = [],
      isUncommitted = (sha = UNCOMMITTED_SHA_PREFIX), filename = []\<rparr>"

definition markUncommitted :: "BlameLineInfo \<Rightarrow> BlameLineInfo" where
  "markUncommitted info =
     (if author info = ''Not Committed Yet'' \<or> includes_str (toLowerCase (author info)) ''not committed''
      then info\<lparr>isUncommitted := True\<rparr> else info)"

lemma scanMeta_rest_length: "length (snd (scanMeta info ls)) \<le> length ls"
proof (induction ls arbitrary: info)
  case Nil
  show ?case by simp
next
  case (Cons l ls)
  have "length (snd (scanMeta (applyMeta info l) ls)) \<le> Suc (length ls)"
    using Cons.IH [of "applyMeta info l"] by simp
  then show ?case by simp
qed

text \<open>
  The outer loop over the raw lines, with the map built so far. The line number
  \<open>parseInt(headerMatch[3], 10)\<close> is the decimal value of the third group.
\<close>

function scanBlocks :: "LineMap \<Rightarrow> string list \<Rightarrow> LineMap" where
  "scanBlocks acc [] = acc"
| "scanBlocks acc (line # rest) =
     (if trim line = [] then scanBlocks acc rest
      else (case headerMatch line of
              None \<Rightarrow> scanBlocks acc rest
            | Some (sha, g2, g3, g4) \<Rightarrow>
                (let blameInfo = initialInfo sha (decimalValue g3);
                     r = scanMeta blameInfo rest;
                     done = markUncommitted (fst r)
                 in scanBlocks (AList.update (lineNumber done) done acc) (snd r))))"
  by pat_completeness auto
termination
proof (relation "measure (\<lambda>(acc, ls). length ls)")
  show "wf (measure (\<lambda>(acc, ls). length ls))" by simp
next
  fix acc :: LineMap and line :: string and rest :: "string list"
  show "((acc, rest), (acc, line # rest)) \<in> measure (\<lambda>(acc, ls). length ls)" by simp
next
  fix acc :: LineMap and line :: string and rest :: "string list"
  show "((acc, rest), (acc, line # rest)) \<in> measure (\<lambda>(acc, ls). length ls)" by simp
next
  fix acc :: LineMap and line :: string and rest :: "string list"
    and r :: "BlameLineInfo \<times> string list" and blameInfo dn :: BlameLineInfo
  assume "r = scanMeta blameInfo rest"
  then have "length (snd r) \<le> length rest"
    by (simp add: scanMeta_rest_length)
  then show "((AList.update (lineNumber dn) dn acc, snd r), (acc, line # rest))
               \<in> measure (\<lambda>(acc, ls). length ls)"
    by simp
qed

text \<open>
  The body of \<open>try\<close> ends either normally with the map, or with an exception and its
  message; \<open>parseOutcome\<close> is the value the function returns in each case. No operation
  of the body (\<open>split\<close>, \<open>trim\<close>, \<open>match\<close>, \<open>startsWith\<close>, \<open>substring\<close>, \<open>parseInt\<close>,
  \<open>Map.set\<close>) throws on strings, so \<open>tryScan\<close> always ends normally.
\<close>

definition tryScan :: "string \<Rightarrow> string + LineMap" where
  "tryScan blameOutput = Inr (scanBlocks [] (split_on CHR 0x0A blameOutput))"

fun parseOutcome :: "string + LineMap \<Rightarrow> BlameParseResult" where
  "parseOutcome (Inr ls) = \<lparr>success = True, lines = ls, error = None, lineCount = length ls\<rparr>"
| "parseOutcome (Inl msg) =
     \<lparr>success = False, lines = [], error = Some (''Failed to parse blame output: '' @ msg),
      lineCount = 0\<rparr>"

definition parseBlameOutput :: "string \<Rightarrow> BlameParseResult" where
  "parseBlameOutput blameOutput =
     (if blameOutput = [] \<or> trim blameOutput = []
      then \<lparr>success = True, lines = [], error = None, lineCount = 0\<rparr>
      else parseOutcome (tryScan blameOutput))"

text \<open>
  \<open>filterLinesByTime\<close>: the cutoff is in milliseconds, \<open>authorTime\<close> in seconds. The
  callback pushes the key of every entry that passes; the array is then sorted
  numerically.
\<close>

definition filterLinesByTime :: "BlameParseResult \<Rightarrow> jsnum \<Rightarrow> int list" where
  "filterLinesByTime blameResult cutoffTimestamp =
     (let cutoffSeconds = js_div cutoffTimestamp (Num 1000);
          recentLines = map fst (filter (\<lambda>(lineNumber, info).
             \<not> isUncommitted info \<and> js_ge (authorTime info) cutoffSeconds) (lines blameResult))
      in sort recentLines)"

definition getUncommittedLines :: "BlameParseResult \<Rightarrow> int list" where
  "getUncommittedLines blameResult =
     sort (map fst (filter (\<lambda>(lineNumber, info). isUncommitted info) (lines blameResult)))"

definition getBlameForLine :: "BlameParseResult \<Rightarrow> int \<Rightarrow> BlameLineInfo option" where
  "getBlameForLine blameResult n = map_of (lines blameResult) n"

section \<open>Blame cache\<close>

text \<open>
  The class \<open>BlameCache\<close>: its methods take the object and return it updated, and carry
  the prefix \<open>cache_\<close>. \<open>Date.now()\<close> is an argument of \<open>cache_set\<close>. The storage
  \<open>Map<string, BlameCacheEntry>\<close> is an association list in insertion order.
\<close>

record BlameCacheEntry =
  blameResult :: BlameParseResult
  headCommit :: string
  cachedAt :: int
  filePath :: string

record BlameCache =
  cache :: "(string \<times> BlameCacheEntry) list"
  hits :: nat
  misses :: nat
  maxEntries :: int

definition newBlameCache :: "int \<Rightarrow> BlameCache" where
  "newBlameCache n = \<lparr>cache = [], hits = 0, misses = 0, maxEntries = n\<rparr>"

definition defaultBlameCache :: BlameCache where
  "defaultBlameCache = newBlameCache 50"

definition getCacheKey :: "string \<Rightarrow> string" where
  "getCacheKey path = toLowerCase (map (\<lambda>c. if c = CHR 0x5C then CHR ''/'' else c) path)"

definition cache_get :: "BlameCache \<Rightarrow> string \<Rightarrow> string \<Rightarrow> BlameParseResult option \<times> BlameCache" where
  "cache_get c path currentHeadCommit =
     (let key = getCacheKey path in
      case map_of (cache c) key of
        None \<Rightarrow> (None, c\<lparr>misses := misses c + 1\<rparr>)
      | Some entry \<Rightarrow>
          if headCommit entry \<noteq> currentHeadCommit
          then (None, c\<lparr>misses := misses c + 1\<rparr>)
          else (Some (blameResult entry), c\<lparr>hits := hits c + 1\<rparr>))"

text \<open>
  \<open>evictOldest\<close>: the scan keeps the first entry with the least \<open>cachedAt\<close>
  (\<open>oldestTime\<close> starts at \<open>Infinity\<close>, here \<open>None\<close>). The entry is deleted under
  \<open>if (oldestKey)\<close>, which is false for \<open>undefined\<close> and for the empty string.
\<close>

fun oldestStep ::
  "string option \<times> int option \<Rightarrow> string \<times> BlameCacheEntry \<Rightarrow> string option \<times> int option" where
  "oldestStep (oldestKey, oldestTime) (key, entry) =
     (if (case oldestTime of None \<Rightarrow> True | Some t \<Rightarrow> cachedAt entry < t)
      then (Some key, Some (cachedAt entry))
      else (oldestKey, oldestTime))"

definition oldestScan :: "(string \<times> BlameCacheEntry) list \<Rightarrow> string option \<times> int option" where
  "oldestScan al = foldl oldestStep (None, None) al"

definition evictOldest :: "BlameCache \<Rightarrow> BlameCache" where
  "evictOldest c =
     (case fst (oldestScan (cache c)) of
        None \<Rightarrow> c
      | Some oldestKey \<Rightarrow>
          if oldestKey \<noteq> [] then c\<lparr>cache := AList.delete oldestKey (cache c)\<rparr> else c)"

definition cache_set :: "BlameCache \<Rightarrow> int \<Rightarrow> string \<Rightarrow> string \<Rightarrow> BlameParseResult \<Rightarrow> BlameCache" where
  "cache_set c now path head res =
     (let key = getCacheKey path;
          c1 = (if maxEntries c \<le> int (length (cache c)) \<and> map_of (cache c) key = None
                then evictOldest c else c)
      in c1\<lparr>cache := AList.update key
                \<lparr>blameResult = res, headCommit = head, cachedAt = now, filePath = path\<rparr>
                (cache c1)\<rparr>)"

definition cache_has :: "BlameCache \<Rightarrow> string \<Rightarrow> string \<Rightarrow> bool" where
  "cache_has c path currentHeadCommit =
     (case map_of (cache c) (getCacheKey path) of
        None \<Rightarrow> False
      | Some entry \<Rightarrow> headCommit entry = currentHeadCommit)"

definition cache_delete :: "BlameCache \<Rightarrow> string \<Rightarrow> bool \<times> BlameCache" where
  "cache_delete c path =
     (let key = getCacheKey path
      in (map_of (cache c) key \<noteq> None, c\<lparr>cache := AList.delete key (cache c)\<rparr>))"

definition cache_clear :: "BlameCache \<Rightarrow> BlameCache" where
  "cache_clear c = c\<lparr>cache := [], hits := 0, misses := 0\<rparr>"

definition invalidateForHeadChange :: "BlameCache \<Rightarrow> string \<Rightarrow> BlameCache" where
  "invalidateForHeadChange c newHeadCommit =
     (let keysToDelete = map fst (filter (\<lambda>(key, entry). headCommit entry \<noteq> newHeadCommit) (cache c))
      in c\<lparr>cache := foldl (\<lambda>al key. AList.delete key al) (cache c) keysToDelete\<rparr>)"

definition cache_size :: "BlameCache \<Rightarrow> nat" where
  "cache_size c = length (cache c)"

text \<open>The operations of the cache, for sequences of calls.\<close>

datatype CacheOp =
    Get string string
  | Set int string string BlameParseResult
  | Delete string
  | InvalidateForHeadChange string
  | Clear

fun applyOp :: "BlameCache \<Rightarrow> CacheOp \<Rightarrow> BlameCache" where
  "applyOp c (Get path head) = snd (cache_get c path head)"
| "applyOp c (Set now path head res) = cache_set c now path head res"
| "applyOp c (Delete path) = snd (cache_delete c path)"
| "applyOp c (InvalidateForHeadChange head) = invalidateForHeadChange c head"
| "applyOp c Clear = cache_clear c"

definition runOps :: "BlameCache \<Rightarrow> CacheOp list \<Rightarrow> BlameCache" where
  "runOps c ops = foldl applyOp c ops"

text \<open>
  A call of \<open>set\<close> with its time, file path, revision and result; a run of such calls;
  the entry that a call stores, and its key.
\<close>

type_synonym SetCall = "int \<times> string \<times> string \<times> BlameParseResult"

fun setCall :: "BlameCache \<Rightarrow> SetCall \<Rightarrow> BlameCache" where
  "setCall c (now, path, head, res) = cache_set c now path head res"

definition setAll :: "BlameCache \<Rightarrow> SetCall list \<Rightarrow> BlameCache" where
  "setAll c calls = foldl setCall c calls"

fun storedEntry :: "SetCall \<Rightarrow> string \<times> BlameCacheEntry" where
  "storedEntry (now, path, head, res) =
     (getCacheKey path, \<lparr>blameResult = res, headCommit = head, cachedAt = now, filePath = path\<rparr>)"

definition keyOf :: "SetCall \<Rightarrow> string" where
  "keyOf call = getCacheKey (fst (snd call))"

definition hasFilePath :: "SetCall \<Rightarrow> bool" where
  "hasFilePath call = (fst (snd call) \<noteq> [])"

text \<open>
  The file path of a \<open>set\<close> is the absolute path of an existing file (the callers pass
  \<open>uri.fsPath\<close> of a file that they have checked to exist): it is not the empty string.
\<close>

definition setsHaveFilePaths :: "CacheOp list \<Rightarrow> bool" where
  "setsHaveFilePaths ops =
     list_all (\<lambda>op. case op of Set now path h res \<Rightarrow> path \<noteq> [] | _ \<Rightarrow> True) ops"

section \<open>Heatmap\<close>

record HeatmapConfig =
  coldHue :: rat
  hotHue :: rat
  saturation :: rat
  lightness :: rat
  opacity :: rat


record HeatmapLineData =
  lineNumber :: int
  color :: string
  ageRatio :: jsnum
  timestamp :: jsnum

text \<open>
  \<open>getHeatmapColor\<close> formats rounded floating-point channel values as text; it is an
  argument \<open>getHeatmapColor :: jsnum \<Rightarrow> HeatmapConfig \<Rightarrow> string\<close> of the two functions
  below, which only store its result. The parameter \<open>blameResult\<close> of the source is
  written \<open>blame\<close> from here on, \<open>blameResult\<close> being a field of the cache entry.

  The first pass of \<open>calculateHeatmap\<close>: \<open>minTime\<close> and \<open>maxTime\<close> start at
  \<open>Infinity\<close> and \<open>-Infinity\<close> (here \<open>None\<close>) and take in the committed lines whose
  \<open>authorTime\<close> is greater than 0.
\<close>

fun boundsStep :: "rat option \<times> rat option \<Rightarrow> int \<times> BlameLineInfo \<Rightarrow> rat option \<times> rat option" where
  "boundsStep (minTime, maxTime) (k, info) =
     (if \<not> isUncommitted info \<and> js_gt (authorTime info) (Num 0)
      then (case authorTime info of
              NaN \<Rightarrow> (minTime, maxTime)
            | Num t \<Rightarrow>
                (Some (case minTime of None \<Rightarrow> t | Some m \<Rightarrow> min m t),
                 Some (case maxTime of None \<Rightarrow> t | Some m \<Rightarrow> max m t)))
      else (minTime, maxTime))"

definition timeBounds :: "LineMap \<Rightarrow> rat option \<times> rat option" where
  "timeBounds ls = foldl boundsStep (None, None) ls"

definition heatmapLine ::
  "(jsnum \<Rightarrow> HeatmapConfig \<Rightarrow> string) \<Rightarrow> HeatmapConfig \<Rightarrow> rat \<Rightarrow> rat \<Rightarrow> int \<times> BlameLineInfo
     \<Rightarrow> HeatmapLineData" where
  "heatmapLine getHeatmapColor config minTime timeRange entry =
     (let info = snd entry;
          ratio = (if 0 < timeRange
                   then js_div (js_sub (authorTime info) (Num minTime)) (Num timeRange)
                   else Num 0)
      in \<lparr>lineNumber = fst entry, color = getHeatmapColor ratio config, ageRatio = ratio,
          timestamp = authorTime info\<rparr>)"

definition calculateHeatmap ::
  "(jsnum \<Rightarrow> HeatmapConfig \<Rightarrow> string) \<Rightarrow> BlameParseResult \<Rightarrow> HeatmapConfig
     \<Rightarrow> HeatmapLineData list" where
  "calculateHeatmap getHeatmapColor blame config =
     (case timeBounds (lines blame) of
        (Some minTime, Some maxTime) \<Rightarrow>
          (let timeRange = maxTime - minTime;
               committed = filter (\<lambda>(k, info). \<not> isUncommitted info) (lines blame)
           in sort_key lineNumber
                (map (heatmapLine getHeatmapColor config minTime timeRange) committed))
      | _ \<Rightarrow> [])"






section \<open>Line decorator: specific highlighting and navigation\<close>

text \<open>
  Of the class \<open>LineDecorator\<close> the field \<open>highlightedLines\<close> is modelled; the editor
  decorations are not. The editor enters navigation by its active line, counted from 0.
\<close>

record LineDecorator =
  highlightedLines :: "int list"

definition applySpecificAuthorHighlighting ::
  "LineDecorator \<Rightarrow> BlameParseResult \<Rightarrow> string \<Rightarrow> LineDecorator" where
  "applySpecificAuthorHighlighting this blame authorName =
     (let matchingLines = map fst (filter (\<lambda>(lineNum, info).
            toLowerCase (author info) = toLowerCase authorName) (lines blame))
      in this\<lparr>highlightedLines := sort matchingLines\<rparr>)"

definition applySpecificCommitHighlighting ::
  "LineDecorator \<Rightarrow> BlameParseResult \<Rightarrow> string \<Rightarrow> LineDecorator" where
  "applySpecificCommitHighlighting this blame sha =
     (let matchingLines = map fst (filter (\<lambda>(lineNum, info).
            startsWith (commitSha info) sha) (lines blame))
      in this\<lparr>highlightedLines := sort matchingLines\<rparr>)"

definition goToNextHighlight :: "LineDecorator \<Rightarrow> int \<Rightarrow> int option" where
  "goToNextHighlight this activeLine =
     (if highlightedLines this = [] then None
      else (let currentLine = activeLine + 1;
                nextLine = find (\<lambda>line. currentLine < line) (highlightedLines this)
            in Some (case nextLine of
                       None \<Rightarrow> hd (highlightedLines this)
                     | Some line \<Rightarrow> line)))"

definition goToPreviousHighlight :: "LineDecorator \<Rightarrow> int \<Rightarrow> int option" where
  "goToPreviousHighlight this activeLine =
     (if highlightedLines this = [] then None
      else (let currentLine = activeLine + 1;
                previousLines = filter (\<lambda>line. line < currentLine) (highlightedLines this);
                previousLine = (if previousLines \<noteq> [] then Some (last previousLines) else None)
            in Some (case previousLine of
                       None \<Rightarrow> last (highlightedLines this)
                     | Some line \<Rightarrow> line)))"

section \<open>Predicates used in the proofs\<close>

text \<open>The rule of the specification for \<open>isUncommitted\<close>.\<close>

definition uncommittedRule :: "BlameLineInfo \<Rightarrow> bool" where
  "uncommittedRule info =
     (isUncommitted info =
        (commitSha info = UNCOMMITTED_SHA_PREFIX \<or> author info = ''Not Committed Yet''
         \<or> includes_str (toLowerCase (author info)) ''not committed''))"

text \<open>
  A cache whose keys are distinct (as the keys of a \<open>Map\<close> are) and not empty, and
  which holds at most \<open>maxEntries\<close> entries.
\<close>

definition cache_inv :: "BlameCache \<Rightarrow> bool" where
  "cache_inv c = (distinct (map fst (cache c)) \<and> [] \<notin> fst ` set (cache c)
                  \<and> int (length (cache c)) \<le> maxEntries c)"

text \<open>
  Bounds on \<open>minTime\<close> and \<open>maxTime\<close>, and the lines that the first pass of
  \<open>calculateHeatmap\<close> takes in.
\<close>

definition atMost_t :: "rat option \<Rightarrow> rat \<Rightarrow> bool" where
  "atMost_t m t = (case m of None \<Rightarrow> False | Some a \<Rightarrow> a \<le> t)"

definition atLeast_t :: "rat option \<Rightarrow> rat \<Rightarrow> bool" where
  "atLeast_t m t = (case m of None \<Rightarrow> False | Some b \<Rightarrow> t \<le> b)"

definition countsForBounds :: "int \<times> BlameLineInfo \<Rightarrow> rat \<Rightarrow> bool" where
  "countsForBounds p t = (\<not> isUncommitted (snd p) \<and> authorTime (snd p) = Num t \<and> 0 < t)"

section \<open>Sample inputs\<close>

text \<open>
  A blame report of three blocks, after the sample of the parser's unit tests: line 1
  and line 2 are committed, line 3 carries the all-zero commit id and an ordinary
  author name.
\<close>

definition sampleBlame :: string where
  "sampleBlame =
     ''abc123def456789012345678901234567890abcd 1 1 1'' @ [CHR 0x0A] @
     ''author John Doe'' @ [CHR 0x0A] @
     ''author-mail <john@example.com>'' @ [CHR 0x0A] @
     ''author-time 1718452800'' @ [CHR 0x0A] @
     ''summary Initial commit'' @ [CHR 0x0A] @
     ''filename test.ts'' @ [CHR 0x0A] @
     [CHR 0x09] @ ''const x = 1;'' @ [CHR 0x0A] @
     ''def456789012345678901234567890abcdef1234 2 2 1'' @ [CHR 0x0A] @
     ''author Jane Smith'' @ [CHR 0x0A] @
     ''author-time 1718366400'' @ [CHR 0x0A] @
     ''summary Add feature'' @ [CHR 0x0A] @
     [CHR 0x09] @ ''const y = 2;'' @ [CHR 0x0A] @
     ''0000000000000000000000000000000000000000 3 3 1'' @ [CHR 0x0A] @
     ''author Jane Smith'' @ [CHR 0x0A] @
     ''author-time 1718539200'' @ [CHR 0x0A] @
     ''summary '' @ [CHR 0x0A] @
     [CHR 0x09] @ ''const z = 3;'' @ [CHR 0x0A]"

definition sampleLine3 :: BlameLineInfo where
  "sampleLine3 =
     \<lparr>BlameLineInfo.lineNumber = 3, commitSha = ''0000000000000000000000000000000000000000'',
      author = ''Jane Smith'', authorMail = [], authorTime = Num 1718539200, authorTz = [],
      summary = [], isUncommitted = True, filename = []\<rparr>"

definition emptyResult :: BlameParseResult where
  "emptyResult = \<lparr>success = True, lines = [], error = None, lineCount = 0\<rparr>"

definition otherResult :: BlameParseResult where
  "otherResult = parseOutcome (Inr [(3, sampleLine3)])"

text \<open>One committed line by the author "Bob".\<close>

definition bobLine :: "int \<times> BlameLineInfo" where
  "bobLine = (1, \<lparr>BlameLineInfo.lineNumber = 1, commitSha = ''abc123def456789012345678901234567890abcd'',
      author = ''Bob'', authorMail = [], authorTime = Num 1718452800, authorTz = [],
      summary = [], isUncommitted = False, filename = []\<rparr>)"

definition bobBlame :: BlameParseResult where
  "bobBlame = parseOutcome (Inr [bobLine])"

text \<open>
  A report whose first block has no \<open>author-time\<close> line, so that its \<open>authorTime\<close>
  stays 0, and whose other two blocks are committed at the times 100 and 200.
\<close>

definition heatmapBlame :: string where
  "heatmapBlame =
     ''abc123def456789012345678901234567890abcd 1 1 1'' @ [CHR 0x0A] @
     ''author John Doe'' @ [CHR 0x0A] @
     ''summary Initial commit'' @ [CHR 0x0A] @
     [CHR 0x09] @ ''const x = 1;'' @ [CHR 0x0A] @
     ''def456789012345678901234567890abcdef1234 2 2 1'' @ [CHR 0x0A] @
     ''author Jane Smith'' @ [CHR 0x0A] @
     ''author-time 100'' @ [CHR 0x0A] @
     [CHR 0x09] @ ''const y = 2;'' @ [CHR 0x0A] @
     ''def456789012345678901234567890abcdef1235 3 3 1'' @ [CHR 0x0A] @
     ''author Jane Smith'' @ [CHR 0x0A] @
     ''author-time 200'' @ [CHR 0x0A] @
     [CHR 0x09] @ ''const z = 3;'' @ [CHR 0x0A]"


text \<open>Three \<open>set\<close> calls with distinct keys, and a cache of capacity 2 that the first two fill.\<close>

definition sampleCalls :: "SetCall list" where
  "sampleCalls =
     [(1000, ''a.ts'', ''h'', emptyResult), (2000, ''b.ts'', ''h'', emptyResult),
      (3000, ''c.ts'', ''h'', emptyResult)]"

definition fullCache :: BlameCache where
  "fullCache = setAll (newBlameCache 2) (take 2 sampleCalls)"

text \<open>A run of all five operations on a cache of capacity 2.\<close>

definition sampleOps :: "CacheOp list" where
  "sampleOps =
     [Set 1000 ''a.ts'' ''h1'' emptyResult, Get ''a.ts'' ''h1'',
      Set 2000 ''b.ts'' ''h1'' emptyResult, Set 3000 ''c.ts'' ''h2'' emptyResult,
      InvalidateForHeadChange ''h2'', Delete ''c.ts'',
      Set 4000 ''d.ts'' ''h2'' emptyResult, Clear]"

section \<open>Properties of the parser\<close>

text \<open>
  The line number of a block is \<open>parseInt\<close> of the third group of the header, a
  non-empty run of digits: it is the decimal value of the run.
\<close>

lemma not_digits:
  "\<not> isDigit (CHR 0x09)" "\<not> isDigit (CHR 0x0A)" "\<not> isDigit (CHR 0x0B)" "\<not> isDigit (CHR 0x0C)"
  "\<not> isDigit (CHR 0x0D)" "\<not> isDigit (CHR 0x20)" "\<not> isDigit (CHR 0xA0)"
  "\<not> isDigit (CHR ''-'')" "\<not> isDigit (CHR ''+'')"
  by (simp_all add: isDigit_def)

lemma isDigit_plain:
  assumes "isDigit c"
  shows "\<not> isWhiteSpace c" and "c \<noteq> CHR ''-''" and "c \<noteq> CHR ''+''"
  using assms not_digits by (auto simp: isWhiteSpace_def)

lemma parseInt_digits:
  assumes "ds \<noteq> []" and "list_all isDigit ds"
  shows "parseInt ds = Num (of_int (decimalValue ds))"
proof -
  from assms obtain c cs where ds: "ds = c # cs" and c: "isDigit c"
    by (cases ds) auto
  from assms(2) have "takeWhile isDigit ds = ds"
    by (simp add: list_all_iff)
  with ds isDigit_plain [OF c] show ?thesis
    by (simp add: parseInt_def Let_def)
qed


lemma headerMatch_group3:
  assumes "headerMatch line = Some (sha, g2, g3, g4)"
  shows "g3 \<noteq> [] \<and> list_all isDigit g3"
proof -
  define r4 where "r4 = dropWhile isWhiteSpace (dropWhile isDigit (dropWhile isWhiteSpace (drop 40 line)))"
  have all: "list_all isDigit (takeWhile isDigit r4)"
    by (auto simp: list_all_iff dest: set_takeWhileD)
  from assms have "g3 = takeWhile isDigit r4 \<and> takeWhile isDigit r4 \<noteq> []"
    unfolding headerMatch_def Let_def r4_def [symmetric]
    by (simp only: split: if_split_asm) (simp_all only: option.inject prod.inject, blast+)
  with all show ?thesis by simp
qed

lemma header_line_number:
  assumes "headerMatch line = Some (sha, g2, g3, g4)"
  shows "parseInt g3 = Num (of_int (decimalValue g3))"
  using headerMatch_group3 [OF assms] by (simp add: parseInt_digits)

lemma applyMeta_keeps:
  "commitSha (applyMeta info m) = commitSha info"
  "isUncommitted (applyMeta info m) = isUncommitted info"
  "BlameLineInfo.lineNumber (applyMeta info m) = BlameLineInfo.lineNumber info"
  by (simp_all add: applyMeta_def)

lemma scanMeta_keeps:
  "commitSha (fst (scanMeta info ls)) = commitSha info
   \<and> isUncommitted (fst (scanMeta info ls)) = isUncommitted info
   \<and> BlameLineInfo.lineNumber (fst (scanMeta info ls)) = BlameLineInfo.lineNumber info"
  by (induction ls arbitrary: info) (simp_all add: applyMeta_keeps)

lemma block_record_rule:
  "uncommittedRule (markUncommitted (fst (scanMeta (initialInfo sha n) rest)))"
proof -
  let ?i = "fst (scanMeta (initialInfo sha n) rest)"
  have "commitSha ?i = sha" and "isUncommitted ?i = (sha = UNCOMMITTED_SHA_PREFIX)"
    using scanMeta_keeps [of "initialInfo sha n" rest] by (simp_all add: initialInfo_def)
  then show ?thesis
    by (simp add: uncommittedRule_def markUncommitted_def)
qed

lemma block_record_key:
  "BlameLineInfo.lineNumber (markUncommitted (fst (scanMeta (initialInfo sha n) rest))) = n"
  using scanMeta_keeps [of "initialInfo sha n" rest]
  by (simp add: markUncommitted_def initialInfo_def)

lemma set_update_subset: "set (AList.update k v al) \<subseteq> insert (k, v) (set al)"
  by (induction al) auto

lemma scanBlocks_rule:
  "list_all (\<lambda>(k, i). uncommittedRule i) acc \<Longrightarrow>
   list_all (\<lambda>(k, i). uncommittedRule i) (scanBlocks acc ls)"
proof (induction acc ls rule: scanBlocks.induct)
  case (1 acc)
  then show ?case by simp
next
  case (2 acc line rest)
  show ?case
  proof (cases "trim line = []")
    case True
    with 2 show ?thesis by simp
  next
    case False
    show ?thesis
    proof (cases "headerMatch line")
      case None
      with False 2 show ?thesis by simp
    next
      case (Some m)
      obtain sha g2 g3 g4 where m: "m = (sha, g2, g3, g4)" by (cases m) auto
      let ?r = "scanMeta (initialInfo sha (decimalValue g3)) rest"
      let ?d = "markUncommitted (fst ?r)"
      have "list_all (\<lambda>(k, i). uncommittedRule i) (AList.update (BlameLineInfo.lineNumber ?d) ?d acc)"
        using "2.prems" block_record_rule [of sha "decimalValue g3" rest]
          set_update_subset [of "BlameLineInfo.lineNumber ?d" ?d acc]
        by (auto simp: list_all_iff)
      then have "list_all (\<lambda>(k, i). uncommittedRule i)
                   (scanBlocks (AList.update (BlameLineInfo.lineNumber ?d) ?d acc) (snd ?r))"
        by (rule "2.IH"(3) [OF False Some m [symmetric] refl refl refl refl refl])
      with False Some m show ?thesis by (simp add: Let_def)
    qed
  qed
qed


lemma update_keys_distinct: "distinct (map fst al) \<Longrightarrow> distinct (map fst (AList.update k v al))"
  by (simp add: distinct_update)

lemma scanBlocks_distinct:
  "distinct (map fst acc) \<Longrightarrow> distinct (map fst (scanBlocks acc ls))"
proof (induction acc ls rule: scanBlocks.induct)
  case (1 acc)
  then show ?case by simp
next
  case (2 acc line rest)
  show ?case
  proof (cases "trim line = []")
    case True
    with 2 show ?thesis by simp
  next
    case False
    show ?thesis
    proof (cases "headerMatch line")
      case None
      with False 2 show ?thesis by simp
    next
      case (Some m)
      obtain sha g2 g3 g4 where m: "m = (sha, g2, g3, g4)" by (cases m) auto
      let ?r = "scanMeta (initialInfo sha (decimalValue g3)) rest"
      let ?d = "markUncommitted (fst ?r)"
      have "distinct (map fst (AList.update (BlameLineInfo.lineNumber ?d) ?d acc))"
        using "2.prems" by (rule update_keys_distinct)
      then have "distinct (map fst (scanBlocks (AList.update (BlameLineInfo.lineNumber ?d) ?d acc) (snd ?r)))"
        by (rule "2.IH"(3) [OF False Some m [symmetric] refl refl refl refl refl])
      with False Some m show ?thesis by (simp add: Let_def)
    qed
  qed
qed

lemma scanBlocks_keys:
  "list_all (\<lambda>(k, i). BlameLineInfo.lineNumber i = k) acc \<Longrightarrow>
   list_all (\<lambda>(k, i). BlameLineInfo.lineNumber i = k) (scanBlocks acc ls)"
proof (induction acc ls rule: scanBlocks.induct)
  case (1 acc)
  then show ?case by simp
next
  case (2 acc line rest)
  show ?case
  proof (cases "trim line = []")
    case True
    with 2 show ?thesis by simp
  next
    case False
    show ?thesis
    proof (cases "headerMatch line")
      case None
      with False 2 show ?thesis by simp
    next
      case (Some m)
      obtain sha g2 g3 g4 where m: "m = (sha, g2, g3, g4)" by (cases m) auto
      let ?r = "scanMeta (initialInfo sha (decimalValue g3)) rest"
      let ?d = "markUncommitted (fst ?r)"
      have "list_all (\<lambda>(k, i). BlameLineInfo.lineNumber i = k) (AList.update (BlameLineInfo.lineNumber ?d) ?d acc)"
        using "2.prems" set_update_subset [of "BlameLineInfo.lineNumber ?d" ?d acc]
        by (auto simp: list_all_iff)
      then have "list_all (\<lambda>(k, i). BlameLineInfo.lineNumber i = k)
                   (scanBlocks (AList.update (BlameLineInfo.lineNumber ?d) ?d acc) (snd ?r))"
        by (rule "2.IH"(3) [OF False Some m [symmetric] refl refl refl refl refl])
      with False Some m show ?thesis by (simp add: Let_def)
    qed
  qed
qed

lemma parse_success: "success (parseBlameOutput s)"
  by (simp add: parseBlameOutput_def tryScan_def)

lemma parse_keys_are_lineNumbers:
  "(k, info) \<in> set (lines (parseBlameOutput s)) \<Longrightarrow> BlameLineInfo.lineNumber info = k"
proof -
  have "list_all (\<lambda>(k, i). BlameLineInfo.lineNumber i = k) (scanBlocks [] ls)" for ls
    by (rule scanBlocks_keys) simp
  then have "list_all (\<lambda>(k, i). BlameLineInfo.lineNumber i = k) (lines (parseBlameOutput s))"
    by (simp add: parseBlameOutput_def tryScan_def)
  then show "(k, info) \<in> set (lines (parseBlameOutput s)) \<Longrightarrow> BlameLineInfo.lineNumber info = k"
    by (auto simp: list_all_iff)
qed

text \<open>
  C5. Every record in the map that \<open>parseBlameOutput\<close> returns has \<open>isUncommitted\<close>
  true exactly when its commit id is the sentinel of 40 zeros, or its author is
  "Not Committed Yet", or its author in lower case contains "not committed". In
  particular the sentinel alone forces \<open>isUncommitted\<close>, whatever the author is.
\<close>

theorem parse_isUncommitted:
  assumes "(k, info) \<in> set (lines (parseBlameOutput s))"
  shows "isUncommitted info =
           (commitSha info = UNCOMMITTED_SHA_PREFIX \<or> author info = ''Not Committed Yet''
            \<or> includes_str (toLowerCase (author info)) ''not committed'')
         \<and> (commitSha info = replicate 40 CHR ''0'' \<longrightarrow> isUncommitted info)"
proof -
  have "list_all (\<lambda>(k, i). uncommittedRule i) (scanBlocks [] ls)" for ls
    by (rule scanBlocks_rule) simp
  then have "list_all (\<lambda>(k, i). uncommittedRule i) (lines (parseBlameOutput s))"
    by (simp add: parseBlameOutput_def tryScan_def)
  with assms have rule: "uncommittedRule info"
    by (auto simp: list_all_iff)
  have "replicate 40 CHR ''0'' = UNCOMMITTED_SHA_PREFIX"
    unfolding UNCOMMITTED_SHA_PREFIX_def by code_simp
  with rule show ?thesis
    by (simp add: uncommittedRule_def)
qed

theorem parse_isUncommitted_witness:
  "(3, sampleLine3) \<in> set (lines (parseBlameOutput sampleBlame))
   \<and> commitSha sampleLine3 = replicate 40 CHR ''0''
   \<and> author sampleLine3 = ''Jane Smith''
   \<and> isUncommitted sampleLine3"
proof -
  have m: "(3, sampleLine3) \<in> set (lines (parseBlameOutput sampleBlame))"
    unfolding sampleBlame_def sampleLine3_def by code_simp
  have z: "commitSha sampleLine3 = replicate 40 CHR ''0''"
    unfolding sampleLine3_def by code_simp
  have a: "author sampleLine3 = ''Jane Smith''"
    by (simp add: sampleLine3_def)
  from parse_isUncommitted [OF m] z have "isUncommitted sampleLine3"
    by blast
  with m z a show ?thesis by blast
qed

text \<open>
  C10. The result of \<open>parseBlameOutput\<close> has \<open>lineCount\<close> equal to the number of
  entries of its map (the keys of the association list are distinct, so its length is
  the size of the map). The result built in the \<open>catch\<close> branch, \<open>parseOutcome (Inl msg)\<close>,
  is the one with \<open>success\<close> false: its map is empty and its \<open>lineCount\<close> is 0. As no
  operation of the \<open>try\<close> body throws (\<open>parse_success\<close>), the failure case of
  \<open>parseBlameOutput\<close> itself, the last conjunct, never arises on a string.
\<close>

theorem parse_lineCount:
  "lineCount (parseBlameOutput s) = length (lines (parseBlameOutput s))
   \<and> distinct (map fst (lines (parseBlameOutput s)))
   \<and> lineCount (parseOutcome oc) = length (lines (parseOutcome oc))
   \<and> (\<not> success (parseOutcome oc) \<longrightarrow>
        lines (parseOutcome oc) = [] \<and> lineCount (parseOutcome oc) = 0)
   \<and> (\<not> success (parseBlameOutput s) \<longrightarrow>
        lines (parseBlameOutput s) = [] \<and> lineCount (parseBlameOutput s) = 0)"
proof -
  have "distinct (map fst (scanBlocks [] ls))" for ls
    by (rule scanBlocks_distinct) simp
  then have "distinct (map fst (lines (parseBlameOutput s)))"
    by (simp add: parseBlameOutput_def tryScan_def)
  moreover have "lineCount (parseBlameOutput s) = length (lines (parseBlameOutput s))"
    by (simp add: parseBlameOutput_def tryScan_def)
  moreover have "lineCount (parseOutcome oc) = length (lines (parseOutcome oc))"
    by (cases oc) simp_all
  moreover have "\<not> success (parseOutcome oc) \<longrightarrow>
        lines (parseOutcome oc) = [] \<and> lineCount (parseOutcome oc) = 0"
    by (cases oc) simp_all
  moreover have "success (parseBlameOutput s)"
    by (rule parse_success)
  ultimately show ?thesis by blast
qed

theorem parse_lineCount_witness:
  "lineCount (parseBlameOutput sampleBlame) = 3
   \<and> length (lines (parseBlameOutput sampleBlame)) = 3
   \<and> \<not> success (parseOutcome (Inl ''boom''))
   \<and> lines (parseOutcome (Inl ''boom'')) = []
   \<and> lineCount (parseOutcome (Inl ''boom'')) = 0"
proof -
  have n: "length (lines (parseBlameOutput sampleBlame)) = 3"
    unfolding sampleBlame_def by code_simp
  have f: "\<not> success (parseOutcome (Inl ''boom''))"
    by simp
  from parse_lineCount [of sampleBlame "Inl ''boom''"] n f show ?thesis
    by simp
qed

section \<open>Properties of \<open>filterLinesByTime\<close>\<close>

text \<open>
  C6. For a cutoff of \<open>c\<close> milliseconds, \<open>filterLinesByTime\<close> returns, in ascending
  order, exactly the keys of the entries that are not uncommitted and whose
  \<open>authorTime\<close> is a number \<open>t\<close> with \<open>c / 1000 \<le> t\<close>; each key once, as the keys of a
  map are distinct. (A cutoff \<open>NaN\<close> selects nothing.)
\<close>

theorem filterLinesByTime_exact:
  "sorted (filterLinesByTime r (Num c))
   \<and> set (filterLinesByTime r (Num c)) =
       {k. \<exists>info t. (k, info) \<in> set (lines r) \<and> \<not> isUncommitted info
            \<and> authorTime info = Num t \<and> c / 1000 \<le> t}
   \<and> (distinct (map fst (lines r)) \<longrightarrow> distinct (filterLinesByTime r (Num c)))
   \<and> filterLinesByTime r NaN = []"
proof -
  have ge: "js_ge a (js_div (Num c) (Num 1000)) = (\<exists>t. a = Num t \<and> c / 1000 \<le> t)" for a
    by (cases a) (simp_all add: js_ge_def js_div_def)
  have "sorted (filterLinesByTime r (Num c))"
    by (simp add: filterLinesByTime_def)
  moreover have "set (filterLinesByTime r (Num c)) =
       {k. \<exists>info t. (k, info) \<in> set (lines r) \<and> \<not> isUncommitted info
            \<and> authorTime info = Num t \<and> c / 1000 \<le> t}"
    by (force simp: filterLinesByTime_def ge image_iff)
  moreover have "distinct (map fst (lines r)) \<longrightarrow> distinct (filterLinesByTime r (Num c))"
    by (simp add: filterLinesByTime_def distinct_map_filter)
  moreover have "filterLinesByTime r NaN = []"
  proof -
    have "\<not> js_ge a (js_div NaN (Num 1000))" for a
      by (cases a) (simp_all add: js_ge_def js_div_def)
    then show ?thesis
      by (simp add: filterLinesByTime_def)
  qed
  ultimately show ?thesis by blast
qed

theorem filterLinesByTime_exact_witness:
  "distinct (map fst (lines (parseBlameOutput sampleBlame)))
   \<and> filterLinesByTime (parseBlameOutput sampleBlame) (Num 1718400000000) = [1]
   \<and> distinct (filterLinesByTime (parseBlameOutput sampleBlame) (Num 1718400000000))"
proof -
  have d: "distinct (map fst (lines (parseBlameOutput sampleBlame)))"
    unfolding sampleBlame_def by code_simp
  have v: "filterLinesByTime (parseBlameOutput sampleBlame) (Num 1718400000000) = [1]"
    unfolding sampleBlame_def by code_simp
  from filterLinesByTime_exact [of "parseBlameOutput sampleBlame" 1718400000000] d
  have "distinct (filterLinesByTime (parseBlameOutput sampleBlame) (Num 1718400000000))"
    by blast
  with d v show ?thesis by blast
qed

section \<open>Properties of the cache\<close>

lemma map_of_cache_set:
  "map_of (cache (cache_set c now f h res)) (getCacheKey f) =
     Some \<lparr>blameResult = res, headCommit = h, cachedAt = now, filePath = f\<rparr>"
  by (simp add: cache_set_def Let_def update_conv')

text \<open>
  C3. \<open>cache_get\<close> returns the stored result exactly when an entry is stored under the
  key and its \<open>headCommit\<close> equals the revision asked for; otherwise it returns nothing;
  in each case the stored entries are left as they are. After \<open>set(f, r1, R1)\<close> and
  \<open>set(f, r2, R2)\<close> with two different revisions, \<open>get(f, r1)\<close> is a miss, and
  \<open>get(f, r2)\<close> returns \<open>R2\<close>, before and after that miss.
\<close>

theorem cache_get_exact_revision:
  "fst (cache_get c f h) =
     (case map_of (cache c) (getCacheKey f) of
        None \<Rightarrow> None
      | Some e \<Rightarrow> if headCommit e = h then Some (blameResult e) else None)
   \<and> cache (snd (cache_get c f h)) = cache c
   \<and> (r1 \<noteq> r2 \<longrightarrow>
        fst (cache_get (cache_set (cache_set c t1 f r1 R1) t2 f r2 R2) f r1) = None
        \<and> fst (cache_get (snd (cache_get (cache_set (cache_set c t1 f r1 R1) t2 f r2 R2) f r1))
                 f r2) = Some R2)
   \<and> fst (cache_get (cache_set (cache_set c t1 f r1 R1) t2 f r2 R2) f r2) = Some R2"
proof -
  let ?c2 = "cache_set (cache_set c t1 f r1 R1) t2 f r2 R2"
  have a: "fst (cache_get c f h) =
     (case map_of (cache c) (getCacheKey f) of
        None \<Rightarrow> None
      | Some e \<Rightarrow> if headCommit e = h then Some (blameResult e) else None)"
    by (simp add: cache_get_def Let_def split: option.split)
  have b: "cache (snd (cache_get c f h)) = cache c"
    by (simp add: cache_get_def Let_def split: option.split)
  have stored: "map_of (cache ?c2) (getCacheKey f) =
     Some \<lparr>blameResult = R2, headCommit = r2, cachedAt = t2, filePath = f\<rparr>"
    by (rule map_of_cache_set)
  have hit: "fst (cache_get ?c2 f r2) = Some R2"
    using stored by (simp add: cache_get_def Let_def)
  have miss: "fst (cache_get ?c2 f r1) = None" if "r1 \<noteq> r2"
    using stored that by (simp add: cache_get_def Let_def)
  have after: "fst (cache_get (snd (cache_get ?c2 f r1)) f r2) = Some R2" if "r1 \<noteq> r2"
    using stored that by (simp add: cache_get_def Let_def)
  from a b hit miss after show ?thesis by blast
qed

theorem cache_get_exact_revision_witness:
  "''h1'' \<noteq> ''h2''
   \<and> fst (cache_get (cache_set (cache_set defaultBlameCache 1000 ''src/a.ts'' ''h1'' emptyResult)
                        2000 ''src/a.ts'' ''h2'' otherResult) ''src/a.ts'' ''h1'') = None
   \<and> fst (cache_get (cache_set (cache_set defaultBlameCache 1000 ''src/a.ts'' ''h1'' emptyResult)
                        2000 ''src/a.ts'' ''h2'' otherResult) ''src/a.ts'' ''h2'') = Some otherResult"
proof -
  have ne: "''h1'' \<noteq> ''h2''" by simp
  from cache_get_exact_revision
         [of defaultBlameCache "''src/a.ts''" "''h1''" "''h1''" "''h2''" 1000 emptyResult 2000 otherResult]
       ne
  show ?thesis by blast
qed

text \<open>
  The scan of \<open>evictOldest\<close> on a non-empty map finds an entry of least \<open>cachedAt\<close>.
\<close>

lemma oldestStep_from_Some:
  "\<exists>k t. foldl oldestStep (Some k0, Some t0) al = (Some k, Some t) \<and> t \<le> t0
     \<and> list_all (\<lambda>(k', e'). t \<le> cachedAt e') al
     \<and> ((k = k0 \<and> t = t0) \<or> (\<exists>e. (k, e) \<in> set al \<and> cachedAt e = t))"
proof (induction al arbitrary: k0 t0)
  case Nil
  show ?case by simp
next
  case (Cons p al)
  obtain key entry where p: "p = (key, entry)" by (cases p)
  show ?case
  proof (cases "cachedAt entry < t0")
    case True
    from Cons.IH [of key "cachedAt entry"]
    obtain k t where r: "foldl oldestStep (Some key, Some (cachedAt entry)) al = (Some k, Some t)"
      and le: "t \<le> cachedAt entry"
      and all: "list_all (\<lambda>(k', e'). t \<le> cachedAt e') al"
      and src: "(k = key \<and> t = cachedAt entry) \<or> (\<exists>e. (k, e) \<in> set al \<and> cachedAt e = t)"
      by blast
    from r True p have "foldl oldestStep (Some k0, Some t0) (p # al) = (Some k, Some t)"
      by simp
    moreover from le True have "t \<le> t0" by simp
    moreover from all le p have "list_all (\<lambda>(k', e'). t \<le> cachedAt e') (p # al)" by simp
    moreover from src p have "\<exists>e. (k, e) \<in> set (p # al) \<and> cachedAt e = t" by auto
    ultimately show ?thesis by blast
  next
    case False
    from Cons.IH [of k0 t0]
    obtain k t where r: "foldl oldestStep (Some k0, Some t0) al = (Some k, Some t)"
      and le: "t \<le> t0"
      and all: "list_all (\<lambda>(k', e'). t \<le> cachedAt e') al"
      and src: "(k = k0 \<and> t = t0) \<or> (\<exists>e. (k, e) \<in> set al \<and> cachedAt e = t)"
      by blast
    from r False p have "foldl oldestStep (Some k0, Some t0) (p # al) = (Some k, Some t)"
      by simp
    moreover from all le False p have "list_all (\<lambda>(k', e'). t \<le> cachedAt e') (p # al)" by simp
    moreover from src have "(k = k0 \<and> t = t0) \<or> (\<exists>e. (k, e) \<in> set (p # al) \<and> cachedAt e = t)"
      by auto
    ultimately show ?thesis using le by blast
  qed
qed

lemma oldestScan_oldest:
  assumes "al \<noteq> []"
  shows "\<exists>k e. fst (oldestScan al) = Some k \<and> (k, e) \<in> set al
           \<and> list_all (\<lambda>(k', e'). cachedAt e \<le> cachedAt e') al"
proof -
  from assms obtain key entry rest where al: "al = (key, entry) # rest"
    by (cases al) auto
  from oldestStep_from_Some [of key "cachedAt entry" rest]
  obtain k t where r: "foldl oldestStep (Some key, Some (cachedAt entry)) rest = (Some k, Some t)"
    and le: "t \<le> cachedAt entry"
    and all: "list_all (\<lambda>(k', e'). t \<le> cachedAt e') rest"
    and src: "(k = key \<and> t = cachedAt entry) \<or> (\<exists>e. (k, e) \<in> set rest \<and> cachedAt e = t)"
    by blast
  from r al have "fst (oldestScan al) = Some k"
    by (simp add: oldestScan_def)
  moreover from src al obtain e where "(k, e) \<in> set al" and "cachedAt e = t"
    by auto
  moreover from all le al have "list_all (\<lambda>(k', e'). t \<le> cachedAt e') al"
    by simp
  ultimately show ?thesis by blast
qed

lemma length_delete_present:
  assumes "distinct (map fst al)" and "k \<in> fst ` set al"
  shows "Suc (length (AList.delete k al)) = length al"
proof -
  have "length (AList.delete k al) = length (map fst (AList.delete k al))" by simp
  also have "\<dots> = length (removeAll k (map fst al))" by (simp only: delete_keys)
  also have "\<dots> = length (remove1 k (map fst al))"
    using assms(1) by (simp add: distinct_remove1_removeAll)
  also have "\<dots> = length (map fst al) - 1"
    using assms(2) by (simp add: length_remove1)
  finally show ?thesis using assms(2) by (cases al) auto
qed

lemma update_absent: "k \<notin> fst ` set al \<Longrightarrow> AList.update k v al = al @ [(k, v)]"
  by (induction al) auto

lemma length_update_le: "length (AList.update k v al) \<le> Suc (length al)"
  by (induction al) auto

lemma length_update_present: "k \<in> fst ` set al \<Longrightarrow> length (AList.update k v al) = length al"
  by (induction al) auto

lemma getCacheKey_nonempty: "path \<noteq> [] \<Longrightarrow> getCacheKey path \<noteq> []"
  by (simp add: getCacheKey_def toLowerCase_def)

lemma evictOldest_effect:
  assumes "distinct (map fst (cache c))" and "[] \<notin> fst ` set (cache c)" and "cache c \<noteq> []"
  shows "\<exists>k e. (k, e) \<in> set (cache c)
           \<and> list_all (\<lambda>(k', e'). cachedAt e \<le> cachedAt e') (cache c)
           \<and> evictOldest c = c\<lparr>cache := AList.delete k (cache c)\<rparr>
           \<and> Suc (length (cache (evictOldest c))) = length (cache c)"
proof -
  from oldestScan_oldest [OF assms(3)]
  obtain k e where s: "fst (oldestScan (cache c)) = Some k" and m: "(k, e) \<in> set (cache c)"
    and o: "list_all (\<lambda>(k', e'). cachedAt e \<le> cachedAt e') (cache c)"
    by blast
  from m have kin: "k \<in> fst ` set (cache c)" by force
  with assms(2) have "k \<noteq> []" by blast
  with s have ev: "evictOldest c = c\<lparr>cache := AList.delete k (cache c)\<rparr>"
    by (simp add: evictOldest_def)
  from length_delete_present [OF assms(1) kin] ev
  have "Suc (length (cache (evictOldest c))) = length (cache c)" by simp
  with m o ev show ?thesis by blast
qed

lemma cache_set_inv:
  assumes inv: "cache_inv c" and cap: "1 \<le> maxEntries c" and path: "path \<noteq> []"
  shows "cache_inv (cache_set c now path h res) \<and> maxEntries (cache_set c now path h res) = maxEntries c"
proof -
  let ?key = "getCacheKey path"
  let ?e = "\<lparr>blameResult = res, headCommit = h, cachedAt = now, filePath = path\<rparr>"
  from path have key: "?key \<noteq> []" by (rule getCacheKey_nonempty)
  from inv have d: "distinct (map fst (cache c))" and ne: "[] \<notin> fst ` set (cache c)"
    and bound: "int (length (cache c)) \<le> maxEntries c"
    by (simp_all add: cache_inv_def)
  show ?thesis
  proof (cases "maxEntries c \<le> int (length (cache c)) \<and> map_of (cache c) ?key = None")
    case True
    with cap have "cache c \<noteq> []" by auto
    from evictOldest_effect [OF d ne this]
    obtain k where ev: "evictOldest c = c\<lparr>cache := AList.delete k (cache c)\<rparr>"
      and len: "Suc (length (cache (evictOldest c))) = length (cache c)"
      by blast
    from True have r: "cache_set c now path h res =
        (evictOldest c)\<lparr>cache := AList.update ?key ?e (cache (evictOldest c))\<rparr>"
      by (simp add: cache_set_def Let_def)
    have "distinct (map fst (cache (evictOldest c)))"
      using d ev by (simp add: distinct_delete)
    then have d': "distinct (map fst (AList.update ?key ?e (cache (evictOldest c))))"
      by (rule distinct_update)
    have "fst ` set (cache (evictOldest c)) \<subseteq> fst ` set (cache c)"
      using ev dom_delete_subset [of k "cache c"] by simp
    with ne key have ne': "[] \<notin> fst ` set (AList.update ?key ?e (cache (evictOldest c)))"
      by (auto simp: dom_update)
    have "length (AList.update ?key ?e (cache (evictOldest c))) \<le> Suc (length (cache (evictOldest c)))"
      by (rule length_update_le)
    with len bound have b': "int (length (AList.update ?key ?e (cache (evictOldest c)))) \<le> maxEntries c"
      by simp
    have m: "maxEntries (evictOldest c) = maxEntries c"
      using ev by simp
    from d' ne' b' m r show ?thesis
      by (simp add: cache_inv_def)
  next
    case False
    then have r: "cache_set c now path h res = c\<lparr>cache := AList.update ?key ?e (cache c)\<rparr>"
      by (auto simp add: cache_set_def Let_def)
    have d': "distinct (map fst (AList.update ?key ?e (cache c)))"
      using d by (rule distinct_update)
    from ne key have ne': "[] \<notin> fst ` set (AList.update ?key ?e (cache c))"
      by (auto simp: dom_update)
    have b': "int (length (AList.update ?key ?e (cache c))) \<le> maxEntries c"
    proof (cases "map_of (cache c) ?key = None")
      case True
      with False have "int (length (cache c)) < maxEntries c" by simp
      with length_update_le [of ?key ?e "cache c"] show ?thesis by simp
    next
      case False
      then have "?key \<in> fst ` set (cache c)"
        by (simp add: map_of_eq_None_iff)
      then have "length (AList.update ?key ?e (cache c)) = length (cache c)"
        by (rule length_update_present)
      with bound show ?thesis by simp
    qed
    from d' ne' b' r show ?thesis
      by (simp add: cache_inv_def)
  qed
qed

lemma foldl_delete_inv:
  "distinct (map fst al) \<Longrightarrow>
   distinct (map fst (foldl (\<lambda>al key. AList.delete key al) al ks))
   \<and> fst ` set (foldl (\<lambda>al key. AList.delete key al) al ks) \<subseteq> fst ` set al
   \<and> length (foldl (\<lambda>al key. AList.delete key al) al ks) \<le> length al"
proof (induction ks arbitrary: al)
  case Nil
  then show ?case by simp
next
  case (Cons k ks)
  from Cons.prems have d: "distinct (map fst (AList.delete k al))"
    by (rule distinct_delete)
  from Cons.IH [OF d] dom_delete_subset [of k al] length_delete_le [of k al]
  show ?case by (simp add: le_trans) blast
qed

lemma applyOp_inv:
  assumes inv: "cache_inv c" and cap: "1 \<le> maxEntries c"
    and paths: "case op of Set now path h res \<Rightarrow> path \<noteq> [] | _ \<Rightarrow> True"
  shows "cache_inv (applyOp c op) \<and> maxEntries (applyOp c op) = maxEntries c"
proof (cases op)
  case (Get path h)
  with inv show ?thesis
    by (simp add: cache_get_def cache_inv_def Let_def split: option.split)
next
  case (Set now path h res)
  with paths have "path \<noteq> []" by simp
  with cache_set_inv [OF inv cap this] Set show ?thesis by simp
next
  case (Delete path)
  from inv have d: "distinct (map fst (cache c))" and ne: "[] \<notin> fst ` set (cache c)"
    and bound: "int (length (cache c)) \<le> maxEntries c"
    by (simp_all add: cache_inv_def)
  from d have "distinct (map fst (AList.delete (getCacheKey path) (cache c)))"
    by (rule distinct_delete)
  moreover from ne dom_delete_subset [of "getCacheKey path" "cache c"]
  have "[] \<notin> fst ` set (AList.delete (getCacheKey path) (cache c))" by blast
  moreover from bound length_delete_le [of "getCacheKey path" "cache c"]
  have "int (length (AList.delete (getCacheKey path) (cache c))) \<le> maxEntries c" by simp
  ultimately show ?thesis using Delete
    by (simp add: cache_delete_def cache_inv_def Let_def)
next
  case (InvalidateForHeadChange h)
  from inv have d: "distinct (map fst (cache c))" and ne: "[] \<notin> fst ` set (cache c)"
    and bound: "int (length (cache c)) \<le> maxEntries c"
    by (simp_all add: cache_inv_def)
  let ?ks = "map fst (filter (\<lambda>(key, entry). headCommit entry \<noteq> h) (cache c))"
  from foldl_delete_inv [OF d, of ?ks] ne bound
  have "distinct (map fst (foldl (\<lambda>al key. AList.delete key al) (cache c) ?ks))"
    and "[] \<notin> fst ` set (foldl (\<lambda>al key. AList.delete key al) (cache c) ?ks)"
    and "int (length (foldl (\<lambda>al key. AList.delete key al) (cache c) ?ks)) \<le> maxEntries c"
    by auto
  with InvalidateForHeadChange show ?thesis
    by (simp add: invalidateForHeadChange_def cache_inv_def Let_def)
next
  case Clear
  with cap show ?thesis
    by (simp add: cache_clear_def cache_inv_def)
qed

lemma runOps_inv:
  assumes "cache_inv c" and "1 \<le> maxEntries c"
    and "list_all (\<lambda>op. case op of Set now path h res \<Rightarrow> path \<noteq> [] | _ \<Rightarrow> True) ops"
  shows "cache_inv (runOps c ops) \<and> maxEntries (runOps c ops) = maxEntries c"
  using assms
proof (induction ops arbitrary: c)
  case Nil
  then show ?case by (simp add: runOps_def)
next
  case (Cons op ops)
  from Cons.prems have p: "case op of Set now path h res \<Rightarrow> path \<noteq> [] | _ \<Rightarrow> True"
    and ps: "list_all (\<lambda>op. case op of Set now path h res \<Rightarrow> path \<noteq> [] | _ \<Rightarrow> True) ops"
    by simp_all
  from applyOp_inv [OF Cons.prems(1) Cons.prems(2) p]
  have i: "cache_inv (applyOp c op)" and m: "maxEntries (applyOp c op) = maxEntries c"
    by simp_all
  from Cons.prems(2) m have "1 \<le> maxEntries (applyOp c op)" by simp
  from Cons.IH [OF i this ps] m show ?case
    by (simp add: runOps_def)
qed

text \<open>
  With file paths that are not empty, the cache started empty with a capacity of at
  least 1 never holds more than \<open>maxEntries\<close> entries, and a \<open>set\<close> with a new key on a
  full cache removes one entry of least \<open>cachedAt\<close> and appends the new one.
\<close>

lemma cache_bound_nonempty_paths:
  assumes "1 \<le> n"
    and "list_all (\<lambda>op. case op of Set now path h res \<Rightarrow> path \<noteq> [] | _ \<Rightarrow> True) ops"
  shows "int (cache_size (runOps (newBlameCache n) ops)) \<le> n"
proof -
  have "cache_inv (newBlameCache n)"
    using assms(1) by (simp add: cache_inv_def newBlameCache_def)
  moreover have "1 \<le> maxEntries (newBlameCache n)"
    using assms(1) by (simp add: newBlameCache_def)
  ultimately have "cache_inv (runOps (newBlameCache n) ops)"
    and "maxEntries (runOps (newBlameCache n) ops) = maxEntries (newBlameCache n)"
    using runOps_inv [of "newBlameCache n" ops] assms(2) by simp_all
  then show ?thesis
    by (simp add: cache_inv_def cache_size_def newBlameCache_def)
qed

lemma cache_set_evicts_oldest:
  assumes inv: "cache_inv c" and cap: "1 \<le> maxEntries c" and path: "path \<noteq> []"
    and full: "int (length (cache c)) = maxEntries c"
    and new: "map_of (cache c) (getCacheKey path) = None"
  shows "\<exists>k e. (k, e) \<in> set (cache c)
           \<and> list_all (\<lambda>(k', e'). cachedAt e \<le> cachedAt e') (cache c)
           \<and> cache (cache_set c now path h res) =
               AList.delete k (cache c) @
                 [(getCacheKey path, \<lparr>blameResult = res, headCommit = h, cachedAt = now, filePath = path\<rparr>)]
           \<and> length (cache (cache_set c now path h res)) = length (cache c)"
proof -
  let ?key = "getCacheKey path"
  let ?e = "\<lparr>blameResult = res, headCommit = h, cachedAt = now, filePath = path\<rparr>"
  from inv have d: "distinct (map fst (cache c))" and ne: "[] \<notin> fst ` set (cache c)"
    by (simp_all add: cache_inv_def)
  from cap full have "cache c \<noteq> []" by auto
  from evictOldest_effect [OF d ne this]
  obtain k e where m: "(k, e) \<in> set (cache c)"
    and o: "list_all (\<lambda>(k', e'). cachedAt e \<le> cachedAt e') (cache c)"
    and ev: "evictOldest c = c\<lparr>cache := AList.delete k (cache c)\<rparr>"
    and len: "Suc (length (cache (evictOldest c))) = length (cache c)"
    by blast
  from full new have r: "cache_set c now path h res =
        (evictOldest c)\<lparr>cache := AList.update ?key ?e (cache (evictOldest c))\<rparr>"
    by (simp add: cache_set_def Let_def)
  from new have "?key \<notin> fst ` set (cache c)"
    by (simp add: map_of_eq_None_iff)
  with dom_delete_subset [of k "cache c"] have "?key \<notin> fst ` set (AList.delete k (cache c))"
    by blast
  then have "AList.update ?key ?e (AList.delete k (cache c)) = AList.delete k (cache c) @ [(?key, ?e)]"
    by (rule update_absent)
  with r ev have c: "cache (cache_set c now path h res) = AList.delete k (cache c) @ [(?key, ?e)]"
    by simp
  with len ev have "length (cache (cache_set c now path h res)) = length (cache c)"
    by simp
  with m o c show ?thesis by blast
qed


text \<open>Runs of \<open>set\<close> calls: filling a cache below its capacity, and the first entry as the oldest.\<close>

lemma fst_storedEntry: "fst (storedEntry call) = keyOf call"
  by (cases call) (simp add: keyOf_def)

lemma cachedAt_storedEntry: "cachedAt (snd (storedEntry call)) = fst call"
  by (cases call) simp

lemma setCall_below_capacity:
  assumes "int (length (cache c)) < maxEntries c"
    and "keyOf call \<notin> fst ` set (cache c)"
  shows "cache (setCall c call) = cache c @ [storedEntry call]
         \<and> maxEntries (setCall c call) = maxEntries c"
proof -
  obtain now path h res where call: "call = (now, path, h, res)"
    by (cases call) auto
  from assms(2) call have "AList.update (getCacheKey path)
      \<lparr>blameResult = res, headCommit = h, cachedAt = now, filePath = path\<rparr> (cache c)
      = cache c @ [storedEntry call]"
    by (simp add: update_absent keyOf_def)
  with assms(1) call show ?thesis
    by (simp add: cache_set_def Let_def)
qed

lemma setAll_fills:
  assumes "int (length (cache c)) + int (length calls) \<le> maxEntries c"
    and "distinct (map fst (cache c) @ map keyOf calls)"
  shows "cache (setAll c calls) = cache c @ map storedEntry calls
         \<and> maxEntries (setAll c calls) = maxEntries c"
  using assms
proof (induction calls arbitrary: c)
  case Nil
  show ?case by (simp add: setAll_def)
next
  case (Cons call calls)
  from Cons.prems(1) have lt: "int (length (cache c)) < maxEntries c" by simp
  from Cons.prems(2) have new: "keyOf call \<notin> fst ` set (cache c)" by auto
  from setCall_below_capacity [OF lt new]
  have c1: "cache (setCall c call) = cache c @ [storedEntry call]"
    and m1: "maxEntries (setCall c call) = maxEntries c"
    by simp_all
  from Cons.prems(1) c1 m1
  have p1: "int (length (cache (setCall c call))) + int (length calls) \<le> maxEntries (setCall c call)"
    by simp
  from Cons.prems(2) c1
  have p2: "distinct (map fst (cache (setCall c call)) @ map keyOf calls)"
    by (simp add: fst_storedEntry)
  from Cons.IH [OF p1 p2] c1 m1 show ?case
    by (simp add: setAll_def)
qed

lemma head_stays_oldest:
  "list_all (\<lambda>(k', e'). t \<le> cachedAt e') rest \<Longrightarrow>
   foldl oldestStep (Some k, Some t) rest = (Some k, Some t)"
  by (induction rest) auto

lemma oldestScan_head:
  assumes "list_all (\<lambda>(k', e'). cachedAt e \<le> cachedAt e') rest"
  shows "fst (oldestScan ((k, e) # rest)) = Some k"
  using head_stays_oldest [OF assms, of k] by (simp add: oldestScan_def)

lemma setAll_snoc: "setAll c (calls @ [call]) = setCall (setAll c calls) call"
  by (simp add: setAll_def)

lemma keyOf_nonempty: "hasFilePath call \<Longrightarrow> keyOf call \<noteq> []"
  by (simp add: hasFilePath_def keyOf_def getCacheKey_nonempty)

lemma overfill_count:
  assumes n: "1 \<le> n"
    and len: "int (length calls) = n + 1"
    and dist: "distinct (map keyOf calls)"
    and paths: "list_all hasFilePath calls"
  shows "int (length (cache (setAll (newBlameCache n) calls))) = n"
proof -
  from len n have "calls \<noteq> []" by auto
  then obtain ys z where calls: "calls = ys @ [z]"
    by (cases calls rule: rev_cases) auto
  with len have ly: "int (length ys) = n" by simp
  let ?start = "newBlameCache n"
  have "int (length (cache ?start)) + int (length ys) \<le> maxEntries ?start"
    using ly by (simp add: newBlameCache_def)
  moreover have "distinct (map fst (cache ?start) @ map keyOf ys)"
    using dist calls by (simp add: newBlameCache_def)
  ultimately have filled: "cache (setAll ?start ys) = map storedEntry ys"
    and mx: "maxEntries (setAll ?start ys) = n"
    using setAll_fills [of ?start ys] by (simp_all add: newBlameCache_def)
  let ?c = "setAll ?start ys"
  obtain now path h res where z: "z = (now, path, h, res)" by (cases z) auto
  have keys: "map fst (cache ?c) = map keyOf ys"
    using filled by (simp add: fst_storedEntry comp_def)
  have inv: "cache_inv ?c"
  proof -
    have "distinct (map fst (cache ?c))" using keys dist calls by simp
    moreover have "[] \<notin> fst ` set (cache ?c)"
    proof
      assume "[] \<in> fst ` set (cache ?c)"
      then have "[] \<in> set (map fst (cache ?c))" by simp
      then have "[] \<in> set (map keyOf ys)" by (simp only: keys)
      then obtain y where "y \<in> set ys" and "keyOf y = []" by auto
      with paths calls keyOf_nonempty [of y] show False
        by (auto simp: list_all_iff)
    qed
    moreover have "int (length (cache ?c)) \<le> maxEntries ?c"
      using filled mx ly by simp
    ultimately show ?thesis by (simp add: cache_inv_def)
  qed
  have cap: "1 \<le> maxEntries ?c" using mx n by simp
  have full: "int (length (cache ?c)) = maxEntries ?c" using filled mx ly by simp
  have path: "path \<noteq> []" using paths calls z by (simp add: hasFilePath_def)
  have ks: "fst ` set (cache ?c) = set (map keyOf ys)"
  proof -
    have "fst ` set (cache ?c) = set (map fst (cache ?c))" by simp
    also have "\<dots> = set (map keyOf ys)" by (simp only: keys)
    finally show ?thesis .
  qed
  have "keyOf z \<notin> set (map keyOf ys)" using dist calls by simp
  with ks have "keyOf z \<notin> fst ` set (cache ?c)" by simp
  with z have "getCacheKey path \<notin> fst ` set (cache ?c)"
    by (simp add: keyOf_def)
  then have new: "map_of (cache ?c) (getCacheKey path) = None"
    by (simp add: map_of_eq_None_iff)
  from cache_set_evicts_oldest [OF inv cap path full new, of now h res]
  have "length (cache (cache_set ?c now path h res)) = length (cache ?c)"
    by blast
  with full mx calls z show ?thesis
    by (simp add: setAll_snoc)
qed


lemma evictOldest_head:
  assumes "k \<noteq> []" and "k \<notin> fst ` set rest"
    and "cache c = (k, e) # rest"
    and "list_all (\<lambda>(k', e'). cachedAt e \<le> cachedAt e') rest"
  shows "cache (evictOldest c) = rest \<and> maxEntries (evictOldest c) = maxEntries c"
proof -
  from oldestScan_head [OF assms(4), of k] assms(3)
  have "fst (oldestScan (cache c)) = Some k" by simp
  with assms(1) have "evictOldest c = c\<lparr>cache := AList.delete k (cache c)\<rparr>"
    by (simp add: evictOldest_def)
  moreover from assms(2) have "AList.delete k ((k, e) # rest) = rest"
    by (simp add: delete_id)
  ultimately show ?thesis using assms(3) by simp
qed

lemma overfill_fifo:
  assumes n: "1 \<le> n"
    and len: "int (length calls) = n + 1"
    and dist: "distinct (map keyOf calls)"
    and paths: "list_all hasFilePath calls"
    and clock: "sorted (map fst calls)"
  shows "cache (setAll (newBlameCache n) calls) = map storedEntry (tl calls)"
proof -
  from len n have "calls \<noteq> []" by auto
  then obtain ys z where calls: "calls = ys @ [z]"
    by (cases calls rule: rev_cases) auto
  with len have ly: "int (length ys) = n" by simp
  with n obtain y ys' where ys: "ys = y # ys'" by (cases ys) auto
  let ?start = "newBlameCache n"
  have "int (length (cache ?start)) + int (length ys) \<le> maxEntries ?start"
    using ly by (simp add: newBlameCache_def)
  moreover have "distinct (map fst (cache ?start) @ map keyOf ys)"
    using dist calls by (simp add: newBlameCache_def)
  ultimately have filled: "cache (setAll ?start ys) = map storedEntry ys"
    and mx: "maxEntries (setAll ?start ys) = n"
    using setAll_fills [of ?start ys] by (simp_all add: newBlameCache_def)
  let ?c = "setAll ?start ys"
  obtain now path h res where z: "z = (now, path, h, res)" by (cases z) auto
  have shape: "cache ?c = (keyOf y, snd (storedEntry y)) # map storedEntry ys'"
    using filled ys by (simp add: fst_storedEntry [symmetric])
  have ky: "keyOf y \<noteq> []"
    using paths calls ys by (simp add: keyOf_nonempty)
  have restmap: "map fst (map storedEntry ys') = map keyOf ys'"
    by (simp add: fst_storedEntry comp_def)
  have restkeys: "fst ` set (map storedEntry ys') = set (map keyOf ys')"
  proof -
    have "fst ` set (map storedEntry ys') = set (map fst (map storedEntry ys'))"
      by (simp only: set_map)
    also have "\<dots> = set (map keyOf ys')" by (simp only: restmap)
    finally show ?thesis .
  qed
  have "keyOf y \<notin> set (map keyOf ys')" using dist calls ys by simp
  with restkeys have fresh: "keyOf y \<notin> fst ` set (map storedEntry ys')" by simp
  have older: "list_all (\<lambda>(k', e'). cachedAt (snd (storedEntry y)) \<le> cachedAt e')
                 (map storedEntry ys')"
  proof -
    have "fst y \<le> fst y'" if "y' \<in> set ys'" for y'
      using clock calls ys that by auto
    then have "cachedAt (snd (storedEntry y)) \<le> cachedAt (snd (storedEntry y'))"
      if "y' \<in> set ys'" for y'
      using that by (simp add: cachedAt_storedEntry)
    then show ?thesis
      by (auto simp: list_all_iff)
  qed
  from evictOldest_head [OF ky fresh shape older]
  have ev: "cache (evictOldest ?c) = map storedEntry ys'"
    and evm: "maxEntries (evictOldest ?c) = maxEntries ?c"
    by simp_all
  have full: "maxEntries ?c \<le> int (length (cache ?c))" using filled mx ly by simp
  have "keyOf z \<notin> set (map keyOf ys)" using dist calls by simp
  then have zy: "keyOf z \<noteq> keyOf y" and zrest: "keyOf z \<notin> set (map keyOf ys')"
    using ys by auto
  from zrest restkeys have znew': "keyOf z \<notin> fst ` set (map storedEntry ys')" by simp
  have "keyOf z \<notin> fst ` set (cache ?c)"
    using shape zy znew' by simp
  with z have new: "map_of (cache ?c) (getCacheKey path) = None"
    by (simp add: map_of_eq_None_iff keyOf_def)
  from full new have "cache_set ?c now path h res =
        (evictOldest ?c)\<lparr>cache := AList.update (getCacheKey path)
           \<lparr>blameResult = res, headCommit = h, cachedAt = now, filePath = path\<rparr>
           (cache (evictOldest ?c))\<rparr>"
    by (simp add: cache_set_def Let_def)
  moreover from znew' z have "AList.update (getCacheKey path)
           \<lparr>blameResult = res, headCommit = h, cachedAt = now, filePath = path\<rparr>
           (map storedEntry ys') = map storedEntry ys' @ [storedEntry z]"
    by (simp add: update_absent keyOf_def)
  ultimately have last: "cache (cache_set ?c now path h res) = map storedEntry ys' @ [storedEntry z]"
    using ev by simp
  have "setAll ?start calls = setCall ?c z"
    unfolding calls by (rule setAll_snoc)
  then have run: "setAll ?start calls = cache_set ?c now path h res"
    using z by simp
  have "tl calls = ys' @ [z]"
    using calls ys by simp
  with last run show ?thesis by simp
qed


text \<open>
  C4. A cache as the operations build it (distinct keys, none of them empty) holds its
  capacity of at least 1 entries, and \<open>set\<close> is called with a file path whose key is not
  present: then exactly one entry, one of least \<open>cachedAt\<close>, is removed, and the new
  entry is appended. Hence \<open>capacity + 1\<close> calls of \<open>set\<close> with distinct keys on the empty
  cache leave exactly \<open>capacity\<close> entries; and when the clock does not run backwards
  between the calls, these are the entries of all calls but the first, so the key
  inserted first is absent. (The default capacity is 50: \<open>defaultBlameCache\<close>.)
\<close>

theorem cache_set_evicts_oldest_entry:
  "(cache_inv c \<and> 1 \<le> maxEntries c \<and> int (length (cache c)) = maxEntries c
      \<and> path \<noteq> [] \<and> map_of (cache c) (getCacheKey path) = None \<longrightarrow>
      (\<exists>k e. (k, e) \<in> set (cache c)
         \<and> list_all (\<lambda>(k', e'). cachedAt e \<le> cachedAt e') (cache c)
         \<and> Suc (length (AList.delete k (cache c))) = length (cache c)
         \<and> cache (cache_set c now path h res) =
             AList.delete k (cache c) @ [storedEntry (now, path, h, res)]))
   \<and> (1 \<le> n \<and> int (length calls) = n + 1 \<and> distinct (map keyOf calls)
      \<and> list_all hasFilePath calls \<longrightarrow>
      int (length (cache (setAll (newBlameCache n) calls))) = n
      \<and> (sorted (map fst calls) \<longrightarrow>
           cache (setAll (newBlameCache n) calls) = map storedEntry (tl calls)
           \<and> keyOf (hd calls) \<notin> fst ` set (cache (setAll (newBlameCache n) calls))))"
proof -
  have one: "\<exists>k e. (k, e) \<in> set (cache c)
         \<and> list_all (\<lambda>(k', e'). cachedAt e \<le> cachedAt e') (cache c)
         \<and> Suc (length (AList.delete k (cache c))) = length (cache c)
         \<and> cache (cache_set c now path h res) =
             AList.delete k (cache c) @ [storedEntry (now, path, h, res)]"
    if inv: "cache_inv c" and cap: "1 \<le> maxEntries c"
      and full: "int (length (cache c)) = maxEntries c"
      and path: "path \<noteq> []" and new: "map_of (cache c) (getCacheKey path) = None"
  proof -
    from cache_set_evicts_oldest [OF inv cap path full new, of now h res]
    obtain k e where m: "(k, e) \<in> set (cache c)"
      and o: "list_all (\<lambda>(k', e'). cachedAt e \<le> cachedAt e') (cache c)"
      and r: "cache (cache_set c now path h res) =
               AList.delete k (cache c) @
                 [(getCacheKey path, \<lparr>blameResult = res, headCommit = h, cachedAt = now, filePath = path\<rparr>)]"
      and l: "length (cache (cache_set c now path h res)) = length (cache c)"
      by blast
    from r l have "Suc (length (AList.delete k (cache c))) = length (cache c)"
      by simp
    with m o r show ?thesis by auto
  qed
  have count: "int (length (cache (setAll (newBlameCache n) calls))) = n"
    if "1 \<le> n" and "int (length calls) = n + 1" and "distinct (map keyOf calls)"
      and "list_all hasFilePath calls"
    using that by (rule overfill_count)
  have fifo: "cache (setAll (newBlameCache n) calls) = map storedEntry (tl calls)
           \<and> keyOf (hd calls) \<notin> fst ` set (cache (setAll (newBlameCache n) calls))"
    if n: "1 \<le> n" and len: "int (length calls) = n + 1" and dist: "distinct (map keyOf calls)"
      and paths: "list_all hasFilePath calls" and clock: "sorted (map fst calls)"
  proof -
    from n len dist paths clock
    have r: "cache (setAll (newBlameCache n) calls) = map storedEntry (tl calls)"
      by (rule overfill_fifo)
    from len n obtain x xs where calls: "calls = x # xs" by (cases calls) auto
    have "map fst (map storedEntry xs) = map keyOf xs"
      by (simp add: fst_storedEntry comp_def)
    then have "fst ` set (map storedEntry xs) = set (map keyOf xs)"
      by (metis set_map)
    moreover from dist calls have "keyOf x \<notin> set (map keyOf xs)" by simp
    ultimately have "keyOf x \<notin> fst ` set (map storedEntry xs)" by simp
    with r calls show ?thesis by simp
  qed
  from one count fifo show ?thesis by blast
qed

theorem cache_set_evicts_oldest_entry_witness:
  "cache_inv fullCache \<and> 1 \<le> maxEntries fullCache
   \<and> int (length (cache fullCache)) = maxEntries fullCache
   \<and> ''c.ts'' \<noteq> [] \<and> map_of (cache fullCache) (getCacheKey ''c.ts'') = None
   \<and> map fst (cache (cache_set fullCache 3000 ''c.ts'' ''h'' emptyResult)) = [''b.ts'', ''c.ts'']
   \<and> (\<exists>k e. (k, e) \<in> set (cache fullCache)
         \<and> list_all (\<lambda>(k', e'). cachedAt e \<le> cachedAt e') (cache fullCache)
         \<and> Suc (length (AList.delete k (cache fullCache))) = length (cache fullCache)
         \<and> cache (cache_set fullCache 3000 ''c.ts'' ''h'' emptyResult) =
             AList.delete k (cache fullCache) @ [storedEntry (3000, ''c.ts'', ''h'', emptyResult)])
   \<and> int (length sampleCalls) = 2 + 1 \<and> distinct (map keyOf sampleCalls)
   \<and> list_all hasFilePath sampleCalls \<and> sorted (map fst sampleCalls)
   \<and> int (length (cache (setAll (newBlameCache 2) sampleCalls))) = 2
   \<and> cache (setAll (newBlameCache 2) sampleCalls) = map storedEntry (tl sampleCalls)
   \<and> keyOf (hd sampleCalls) \<notin> fst ` set (cache (setAll (newBlameCache 2) sampleCalls))"
proof -
  have a1: "cache_inv fullCache"
    unfolding cache_inv_def fullCache_def sampleCalls_def emptyResult_def setAll_def by code_simp
  have a2: "1 \<le> maxEntries fullCache"
    unfolding fullCache_def sampleCalls_def emptyResult_def setAll_def by code_simp
  have a3: "int (length (cache fullCache)) = maxEntries fullCache"
    unfolding fullCache_def sampleCalls_def emptyResult_def setAll_def by code_simp
  have a4: "''c.ts'' \<noteq> []" by simp
  have a5: "map_of (cache fullCache) (getCacheKey ''c.ts'') = None"
    unfolding fullCache_def sampleCalls_def emptyResult_def setAll_def by code_simp
  have v: "map fst (cache (cache_set fullCache 3000 ''c.ts'' ''h'' emptyResult)) = [''b.ts'', ''c.ts'']"
    unfolding fullCache_def sampleCalls_def emptyResult_def setAll_def by code_simp
  have b1: "(1::int) \<le> 2" by simp
  have b2: "int (length sampleCalls) = 2 + 1"
    by (simp add: sampleCalls_def)
  have b3: "distinct (map keyOf sampleCalls)"
    unfolding sampleCalls_def keyOf_def by code_simp
  have b4: "list_all hasFilePath sampleCalls"
    by (simp add: sampleCalls_def hasFilePath_def)
  have b5: "sorted (map fst sampleCalls)"
    by (simp add: sampleCalls_def)
  note inst = cache_set_evicts_oldest_entry
      [of fullCache "''c.ts''" 3000 "''h''" emptyResult 2 sampleCalls]
  from inst a1 a2 a3 a4 a5
  have e: "\<exists>k e. (k, e) \<in> set (cache fullCache)
         \<and> list_all (\<lambda>(k', e'). cachedAt e \<le> cachedAt e') (cache fullCache)
         \<and> Suc (length (AList.delete k (cache fullCache))) = length (cache fullCache)
         \<and> cache (cache_set fullCache 3000 ''c.ts'' ''h'' emptyResult) =
             AList.delete k (cache fullCache) @ [storedEntry (3000, ''c.ts'', ''h'', emptyResult)]"
    by blast
  from inst b1 b2 b3 b4 b5
  have f: "int (length (cache (setAll (newBlameCache 2) sampleCalls))) = 2
     \<and> cache (setAll (newBlameCache 2) sampleCalls) = map storedEntry (tl sampleCalls)
     \<and> keyOf (hd sampleCalls) \<notin> fst ` set (cache (setAll (newBlameCache 2) sampleCalls))"
    by blast
  from a1 a2 a3 a4 a5 v e b2 b3 b4 b5 f show ?thesis by blast
qed

text \<open>
  C9. From the empty cache with a capacity of at least 1, after every run of \<open>get\<close>,
  \<open>set\<close>, \<open>delete\<close>, \<open>invalidateForHeadChange\<close> and \<open>clear\<close>, and so at every point of
  a run, the number of stored entries is at most \<open>maxEntries\<close>.
\<close>

theorem cache_size_bounded:
  assumes "1 \<le> n" and "setsHaveFilePaths ops"
  shows "int (cache_size (runOps (newBlameCache n) (take i ops))) \<le> n"
proof -
  from assms(2)
  have "list_all (\<lambda>op. case op of Set now path h res \<Rightarrow> path \<noteq> [] | _ \<Rightarrow> True) (take i ops)"
    by (auto simp: setsHaveFilePaths_def list_all_iff dest: in_set_takeD)
  with assms(1) show ?thesis
    by (rule cache_bound_nonempty_paths)
qed

theorem cache_size_bounded_witness:
  "(1::int) \<le> 2 \<and> setsHaveFilePaths sampleOps
   \<and> cache_size (runOps (newBlameCache 2) (take 4 sampleOps)) = 2
   \<and> map fst (cache (runOps (newBlameCache 2) (take 4 sampleOps))) = [''b.ts'', ''c.ts'']
   \<and> int (cache_size (runOps (newBlameCache 2) (take 4 sampleOps))) \<le> 2
   \<and> int (cache_size (runOps (newBlameCache 2) (take 8 sampleOps))) \<le> 2"
proof -
  have n: "(1::int) \<le> 2" by simp
  have p: "setsHaveFilePaths sampleOps"
    by (simp add: setsHaveFilePaths_def sampleOps_def)
  have v: "cache_size (runOps (newBlameCache 2) (take 4 sampleOps)) = 2"
    unfolding sampleOps_def emptyResult_def by code_simp
  have k: "map fst (cache (runOps (newBlameCache 2) (take 4 sampleOps))) = [''b.ts'', ''c.ts'']"
    unfolding sampleOps_def emptyResult_def by code_simp
  from cache_size_bounded [OF n p, of 4] cache_size_bounded [OF n p, of 8] n p v k
  show ?thesis by blast
qed

text \<open>
  The condition on the file paths is needed. \<open>evictOldest\<close> deletes under
  \<open>if (oldestKey)\<close>, which is false for the key of the empty path: with the paths
  \<open>""\<close>, \<open>"a.ts"\<close> and \<open>"b.ts"\<close> a cache of capacity 2 ends with three entries.
\<close>

lemma empty_path_is_not_evicted:
  "map fst (cache (cache_set (cache_set (cache_set (newBlameCache 2)
        1000 [] ''h'' emptyResult) 2000 ''a.ts'' ''h'' emptyResult) 3000 ''b.ts'' ''h'' emptyResult))
     = [[], ''a.ts'', ''b.ts'']"
  unfolding emptyResult_def by code_simp

section \<open>Properties of the navigation\<close>

lemma find_sorted_Min:
  assumes "sorted xs" "\<exists>x\<in>set xs. c < x"
  shows "find (\<lambda>l. c < l) xs = Some (Min {x \<in> set xs. c < (x::int)})"
  using assms
proof (induction xs)
  case Nil
  then show ?case by simp
next
  case (Cons x xs)
  show ?case
  proof (cases "c < x")
    case True
    have "Min {y \<in> set (x # xs). c < y} = x"
    proof (rule Min_eqI)
      show "finite {y \<in> set (x # xs). c < y}" by simp
      show "x \<le> y" if "y \<in> {y \<in> set (x # xs). c < y}" for y
        using that Cons.prems(1) by auto
      show "x \<in> {y \<in> set (x # xs). c < y}" using True by simp
    qed
    with True show ?thesis by simp
  next
    case False
    with Cons.prems have ex: "\<exists>x\<in>set xs. c < x" by auto
    from False have "{y \<in> set (x # xs). c < y} = {y \<in> set xs. c < y}" by auto
    with False Cons.IH ex Cons.prems(1) show ?thesis by simp
  qed
qed

lemma sorted_last_Max: "sorted ys \<Longrightarrow> ys \<noteq> [] \<Longrightarrow> last ys = Max (set (ys::int list))"
proof (induction ys)
  case Nil
  then show ?case by simp
next
  case (Cons y ys)
  show ?case
  proof (cases "ys = []")
    case True
    then show ?thesis by simp
  next
    case False
    with Cons have ih: "last ys = Max (set ys)" by simp
    from False have "Max (set ys) \<in> set ys" by simp
    with Cons.prems(1) have "y \<le> Max (set ys)" by auto
    with False ih show ?thesis by (simp add: max_def)
  qed
qed

lemma last_filter_sorted_Max:
  assumes "sorted xs" "\<exists>x\<in>set xs. x < c"
  shows "last (filter (\<lambda>l. l < c) xs) = Max {x \<in> set xs. (x::int) < c}"
proof -
  let ?f = "filter (\<lambda>l. l < c) xs"
  from assms(2) have ne: "?f \<noteq> []" by (auto simp: filter_empty_conv)
  have s: "sorted ?f" using assms(1) by (rule sorted_wrt_filter)
  have "last ?f = Max (set ?f)"
    using s ne by (rule sorted_last_Max)
  then show ?thesis by simp
qed

text \<open>
  C7. Over a non-empty ascending list of highlighted lines, with the cursor on the line
  \<open>a + 1\<close> (the editor counts from 0): \<open>goToNextHighlight\<close> returns the least
  highlighted line greater than the cursor's, or the first highlighted line when there
  is none; \<open>goToPreviousHighlight\<close> returns the greatest highlighted line less than the
  cursor's, or the last highlighted line when there is none. On the empty list both
  return nothing.
\<close>

theorem navigation_wraparound:
  "(sorted (highlightedLines this) \<and> highlightedLines this \<noteq> [] \<longrightarrow>
      goToNextHighlight this a =
        Some (if {x \<in> set (highlightedLines this). a + 1 < x} = {}
              then hd (highlightedLines this)
              else Min {x \<in> set (highlightedLines this). a + 1 < x})
      \<and> goToPreviousHighlight this a =
        Some (if {x \<in> set (highlightedLines this). x < a + 1} = {}
              then last (highlightedLines this)
              else Max {x \<in> set (highlightedLines this). x < a + 1}))
   \<and> (highlightedLines this = [] \<longrightarrow>
        goToNextHighlight this a = None \<and> goToPreviousHighlight this a = None)"
proof -
  let ?hl = "highlightedLines this"
  have nxt: "goToNextHighlight this a =
           Some (if {x \<in> set ?hl. a + 1 < x} = {} then hd ?hl else Min {x \<in> set ?hl. a + 1 < x})"
    if srt: "sorted ?hl" and ne: "?hl \<noteq> []"
  proof (cases "{x \<in> set ?hl. a + 1 < x} = {}")
    case True
    then have "find (\<lambda>l. a + 1 < l) ?hl = None"
      by (auto simp: find_None_iff)
    with ne have "goToNextHighlight this a = Some (hd ?hl)"
      by (simp add: goToNextHighlight_def)
    then show ?thesis
      unfolding if_P [OF True] .
  next
    case False
    then have "\<exists>x\<in>set ?hl. a + 1 < x" by auto
    with srt have "find (\<lambda>l. a + 1 < l) ?hl = Some (Min {x \<in> set ?hl. a + 1 < x})"
      by (rule find_sorted_Min)
    with ne have "goToNextHighlight this a = Some (Min {x \<in> set ?hl. a + 1 < x})"
      by (simp add: goToNextHighlight_def)
    then show ?thesis
      unfolding if_not_P [OF False] .
  qed
  have prv: "goToPreviousHighlight this a =
           Some (if {x \<in> set ?hl. x < a + 1} = {} then last ?hl else Max {x \<in> set ?hl. x < a + 1})"
    if srt: "sorted ?hl" and ne: "?hl \<noteq> []"
  proof (cases "{x \<in> set ?hl. x < a + 1} = {}")
    case True
    then have "filter (\<lambda>l. l < a + 1) ?hl = []"
      by (auto simp: filter_empty_conv)
    with ne have "goToPreviousHighlight this a = Some (last ?hl)"
      by (simp add: goToPreviousHighlight_def)
    then show ?thesis
      unfolding if_P [OF True] .
  next
    case False
    then have ex: "\<exists>x\<in>set ?hl. x < a + 1" by auto
    then have nf: "filter (\<lambda>l. l < a + 1) ?hl \<noteq> []"
      by (auto simp: filter_empty_conv)
    from srt ex have "last (filter (\<lambda>l. l < a + 1) ?hl) = Max {x \<in> set ?hl. x < a + 1}"
      by (rule last_filter_sorted_Max)
    with nf ne have "goToPreviousHighlight this a = Some (Max {x \<in> set ?hl. x < a + 1})"
      by (simp add: goToPreviousHighlight_def)
    then show ?thesis
      unfolding if_not_P [OF False] .
  qed
  have emp: "goToNextHighlight this a = None \<and> goToPreviousHighlight this a = None"
    if "?hl = []"
    using that by (simp add: goToNextHighlight_def goToPreviousHighlight_def)
  from nxt prv emp show ?thesis by blast
qed

text \<open>
  The example of the specification: with the highlighted lines 3, 7 and 12, next from
  line 12 is 3 and previous from line 3 is 12.
\<close>

theorem navigation_wraparound_witness:
  "sorted (highlightedLines \<lparr>highlightedLines = [3, 7, 12]\<rparr>)
   \<and> highlightedLines \<lparr>highlightedLines = [3, 7, 12]\<rparr> \<noteq> []
   \<and> goToNextHighlight \<lparr>highlightedLines = [3, 7, 12]\<rparr> 11 = Some 3
   \<and> goToPreviousHighlight \<lparr>highlightedLines = [3, 7, 12]\<rparr> 2 = Some 12
   \<and> goToNextHighlight \<lparr>highlightedLines = []\<rparr> 11 = None"
proof -
  have s: "sorted (highlightedLines \<lparr>highlightedLines = [3, 7, 12 :: int]\<rparr>)" by simp
  have n: "highlightedLines \<lparr>highlightedLines = [3, 7, 12 :: int]\<rparr> \<noteq> []" by simp
  have up: "{x \<in> set (highlightedLines \<lparr>highlightedLines = [3, 7, 12 :: int]\<rparr>). 11 + 1 < x} = {}"
    by auto
  have down: "{x \<in> set (highlightedLines \<lparr>highlightedLines = [3, 7, 12 :: int]\<rparr>). x < 2 + 1} = {}"
    by auto
  from navigation_wraparound [of "\<lparr>highlightedLines = [3, 7, 12]\<rparr>" 11] s n up
  have nx: "goToNextHighlight \<lparr>highlightedLines = [3, 7, 12]\<rparr> 11 = Some 3"
    by simp
  from navigation_wraparound [of "\<lparr>highlightedLines = [3, 7, 12]\<rparr>" 2] s n down
  have pv: "goToPreviousHighlight \<lparr>highlightedLines = [3, 7, 12]\<rparr> 2 = Some 12"
    by simp
  from navigation_wraparound [of "\<lparr>highlightedLines = []\<rparr>" 11]
  have em: "goToNextHighlight \<lparr>highlightedLines = []\<rparr> 11 = None"
    by simp
  from s n nx pv em show ?thesis by blast
qed

section \<open>Properties of the specific highlighting\<close>

text \<open>
  C2, as stated, fails: the two modes do not share one test. For the line of "Bob"
  with a commit id that starts with "abc", the author mode with the target "abc" does
  not highlight the line although its commit id starts with the target, and the commit
  mode with the target "BOB" does not highlight it although its author equals the
  target without regard to case.
\<close>

theorem specific_modes_counterexample:
  "startsWith (commitSha (snd bobLine)) ''abc''
   \<and> 1 \<notin> set (highlightedLines
                 (applySpecificAuthorHighlighting \<lparr>highlightedLines = []\<rparr> bobBlame ''abc''))
   \<and> toLowerCase (author (snd bobLine)) = toLowerCase ''BOB''
   \<and> 1 \<notin> set (highlightedLines
                 (applySpecificCommitHighlighting \<lparr>highlightedLines = []\<rparr> bobBlame ''BOB''))"
  unfolding bobBlame_def bobLine_def by code_simp

text \<open>
  C2, amended. In the author mode a line, committed or not, is highlighted exactly when
  its author equals the target without regard to case; in the commit mode exactly when
  its commit id starts with the target. The highlighted lines are in ascending order.
\<close>

theorem specific_modes_exact:
  "(k \<in> set (highlightedLines (applySpecificAuthorHighlighting this r target))) =
     (\<exists>info. (k, info) \<in> set (lines r) \<and> toLowerCase (author info) = toLowerCase target)
   \<and> (k \<in> set (highlightedLines (applySpecificCommitHighlighting this r target))) =
     (\<exists>info. (k, info) \<in> set (lines r) \<and> startsWith (commitSha info) target)
   \<and> sorted (highlightedLines (applySpecificAuthorHighlighting this r target))
   \<and> sorted (highlightedLines (applySpecificCommitHighlighting this r target))"
proof -
  have "(k \<in> set (highlightedLines (applySpecificAuthorHighlighting this r target))) =
     (\<exists>info. (k, info) \<in> set (lines r) \<and> toLowerCase (author info) = toLowerCase target)"
    by (auto simp: applySpecificAuthorHighlighting_def image_iff)
  moreover have "(k \<in> set (highlightedLines (applySpecificCommitHighlighting this r target))) =
     (\<exists>info. (k, info) \<in> set (lines r) \<and> startsWith (commitSha info) target)"
    by (auto simp: applySpecificCommitHighlighting_def image_iff)
  moreover have "sorted (highlightedLines (applySpecificAuthorHighlighting this r target))"
    by (simp add: applySpecificAuthorHighlighting_def)
  moreover have "sorted (highlightedLines (applySpecificCommitHighlighting this r target))"
    by (simp add: applySpecificCommitHighlighting_def)
  ultimately show ?thesis by blast
qed

section \<open>Properties of the heatmap\<close>

text \<open>
  When every committed line has an \<open>authorTime\<close> greater than 0, every ratio lies
  between 0 and 1.
\<close>

lemma boundsStep_keeps:
  "atMost_t mn t \<Longrightarrow> atMost_t (fst (boundsStep (mn, mx) p)) t"
  "atLeast_t mx t \<Longrightarrow> atLeast_t (snd (boundsStep (mn, mx) p)) t"
  by (cases p; cases "authorTime (snd p)"; cases mn; cases mx;
      simp add: atMost_t_def atLeast_t_def min_def max_def)+

lemma boundsStep_takes:
  "countsForBounds p t \<Longrightarrow>
     atMost_t (fst (boundsStep (mn, mx) p)) t \<and> atLeast_t (snd (boundsStep (mn, mx) p)) t"
  by (cases p; cases mn; cases mx)
     (simp_all add: countsForBounds_def atMost_t_def atLeast_t_def js_gt_def js_lt_def)

lemma bounds_fold_keeps:
  "atMost_t (fst acc) t \<Longrightarrow> atMost_t (fst (foldl boundsStep acc ls)) t"
  "atLeast_t (snd acc) t \<Longrightarrow> atLeast_t (snd (foldl boundsStep acc ls)) t"
proof (induction ls arbitrary: acc)
  case Nil
  { case 1 then show ?case by simp }
  { case 2 then show ?case by simp }
next
  case (Cons p ls)
  { case 1
    from 1 boundsStep_keeps(1) [of "fst acc" t "snd acc" p]
    have "atMost_t (fst (boundsStep acc p)) t" by simp
    then have "atMost_t (fst (foldl boundsStep (boundsStep acc p) ls)) t"
      by (rule Cons.IH(1))
    then show ?case by simp }
  { case 2
    from 2 boundsStep_keeps(2) [of "snd acc" t "fst acc" p]
    have "atLeast_t (snd (boundsStep acc p)) t" by simp
    then have "atLeast_t (snd (foldl boundsStep (boundsStep acc p) ls)) t"
      by (rule Cons.IH(2))
    then show ?case by simp }
qed

lemma bounds_fold_takes:
  "p \<in> set ls \<Longrightarrow> countsForBounds p t \<Longrightarrow>
     atMost_t (fst (foldl boundsStep acc ls)) t \<and> atLeast_t (snd (foldl boundsStep acc ls)) t"
proof (induction ls arbitrary: acc)
  case Nil
  then show ?case by simp
next
  case (Cons q ls)
  show ?case
  proof (cases "p = q")
    case True
    from boundsStep_takes [OF Cons.prems(2), of "fst acc" "snd acc"] True
    have "atMost_t (fst (boundsStep acc q)) t" and "atLeast_t (snd (boundsStep acc q)) t"
      by simp_all
    then show ?thesis
      by (simp add: bounds_fold_keeps)
  next
    case False
    with Cons.prems have "p \<in> set ls" by simp
    from Cons.IH [OF this Cons.prems(2), of "boundsStep acc q"] show ?thesis
      by simp
  qed
qed

lemma ratio_in_unit:
  fixes t mn mx :: rat
  assumes "mn \<le> t" "t \<le> mx" "0 < mx - mn"
  shows "0 \<le> (t - mn) / (mx - mn) \<and> (t - mn) / (mx - mn) \<le> 1"
  using assms by (simp add: divide_le_eq)

lemma calculateHeatmap_in_range:
  assumes pos: "list_all (\<lambda>(k, info). isUncommitted info \<or> (\<exists>t. authorTime info = Num t \<and> 0 < t))
                  (lines r)"
    and d: "d \<in> set (calculateHeatmap col r cfg)"
  shows "\<exists>x. ageRatio d = Num x \<and> 0 \<le> x \<and> x \<le> 1"
proof -
  from d obtain mn mx where tb: "timeBounds (lines r) = (Some mn, Some mx)"
    by (cases "timeBounds (lines r)"; cases "fst (timeBounds (lines r))";
        cases "snd (timeBounds (lines r))") (simp_all add: calculateHeatmap_def)
  from d tb obtain p where p: "p \<in> set (lines r)" and unc: "\<not> isUncommitted (snd p)"
    and dp: "d = heatmapLine col cfg mn (mx - mn) p"
    by (auto simp: calculateHeatmap_def Let_def)
  from pos p unc obtain t where t: "authorTime (snd p) = Num t" and t0: "0 < t"
    by (auto simp: list_all_iff)
  from unc t t0 have "countsForBounds p t"
    by (simp add: countsForBounds_def)
  from bounds_fold_takes [OF p this, of "(None, None)"] tb have b: "mn \<le> t \<and> t \<le> mx"
    by (simp add: timeBounds_def atMost_t_def atLeast_t_def)
  show ?thesis
  proof (cases "0 < mx - mn")
    case True
    with dp t have "ageRatio d = Num ((t - mn) / (mx - mn))"
      by (simp add: heatmapLine_def js_div_def js_sub_def Let_def)
    with ratio_in_unit [of mn t mx] b True show ?thesis by simp
  next
    case False
    with dp have "ageRatio d = Num 0"
      by (simp add: heatmapLine_def Let_def)
    then show ?thesis by simp
  qed
qed


text \<open>
  C1, at the failing input. The first pass of \<open>calculateHeatmap\<close> leaves the committed
  line 1, whose \<open>authorTime\<close> is 0, out of \<open>minTime\<close> and \<open>maxTime\<close>; the second pass
  does not leave it out, and its ratio is \<open>(0 - 100) / (200 - 100) = -1\<close>.
\<close>

theorem calculateHeatmap_negative_ratio:
  "map (\<lambda>d. (lineNumber d, ageRatio d, timestamp d))
       (calculateHeatmap getHeatmapColor (parseBlameOutput heatmapBlame) config)
     = [(1, Num (- 1), Num 0), (2, Num 0, Num 100), (3, Num 1, Num 200)]"
  unfolding heatmapBlame_def by code_simp






end
